theory Spec2Isabelle
  imports Complex_Main
begin

section \<open>Floating-point formats and the bit-field accessor\<close>

text \<open>
  A value of the floating type \<open>T\<close> is its storage word (\<open>FPBits<T>::StorageType\<close>),
  kept as a natural number below \<open>2 ^ TOTAL_LEN\<close>: right shift by \<open>n\<close> is
  \<open>div 2 ^ n\<close>, left shift is \<open>* 2 ^ n\<close>, masking with the low \<open>n\<close> bits is
  \<open>mod 2 ^ n\<close>, and a cast to the storage type is \<open>mod 2 ^ TOTAL_LEN\<close>.
  The template parameter \<open>T\<close> is the record \<open>format\<close>; the IEEE interchange formats
  are covered (sign, \<open>EXP_LEN\<close> exponent bits, \<open>FRACTION_LEN\<close> fraction bits, no
  explicit leading bit).
\<close>

record format =
  FRACTION_LEN :: nat
  EXP_LEN :: nat

definition binary16 :: format where
  "binary16 = \<lparr>FRACTION_LEN = 10, EXP_LEN = 5\<rparr>"

definition binary32 :: format where
  "binary32 = \<lparr>FRACTION_LEN = 23, EXP_LEN = 8\<rparr>"

definition binary64 :: format where
  "binary64 = \<lparr>FRACTION_LEN = 52, EXP_LEN = 11\<rparr>"

definition TOTAL_LEN :: "format \<Rightarrow> nat" where
  "TOTAL_LEN fmt = 1 + EXP_LEN fmt + FRACTION_LEN fmt"

definition EXP_BIAS :: "format \<Rightarrow> nat" where
  "EXP_BIAS fmt = 2 ^ (EXP_LEN fmt - 1) - 1"

text \<open>
  The formats the library instantiates have at least one fraction bit, at least three
  exponent bits, and a precision that does not exceed the largest exponent.
\<close>

definition wf_format :: "format \<Rightarrow> bool" where
  "wf_format fmt \<longleftrightarrow>
     1 \<le> FRACTION_LEN fmt \<and> 3 \<le> EXP_LEN fmt \<and> FRACTION_LEN fmt \<le> EXP_BIAS fmt"

definition SIGN_MASK :: "format \<Rightarrow> nat" where
  "SIGN_MASK fmt = 2 ^ (EXP_LEN fmt + FRACTION_LEN fmt)"

definition FRACTION_MASK :: "format \<Rightarrow> nat" where
  "FRACTION_MASK fmt = 2 ^ FRACTION_LEN fmt - 1"

text \<open>
  Modelled from the spec: \<open>SIG_MASK\<close> of FPBits.h (not in the sources at hand). For the
  interchange formats the significand field is the fraction field.
\<close>

definition SIG_MASK :: "format \<Rightarrow> nat" where
  "SIG_MASK fmt = FRACTION_MASK fmt"

definition EXP_MAX :: "format \<Rightarrow> nat" where
  "EXP_MAX fmt = 2 ^ EXP_LEN fmt - 1"

definition valid :: "format \<Rightarrow> nat \<Rightarrow> bool" where
  "valid fmt x \<longleftrightarrow> x < 2 ^ TOTAL_LEN fmt"

text \<open>
  Modelled from the spec: the accessors of \<open>FPBits<T>\<close> (FPBits.h is not in the sources
  at hand): extraction of sign, exponent and mantissa, the classification predicates,
  mutation of the mantissa or of the whole pattern, and the canonical values.
\<close>

definition biased_exponent :: "format \<Rightarrow> nat \<Rightarrow> nat" where
  "biased_exponent fmt x = (x div 2 ^ FRACTION_LEN fmt) mod 2 ^ EXP_LEN fmt"

definition get_exponent :: "format \<Rightarrow> nat \<Rightarrow> int" where
  "get_exponent fmt x = int (biased_exponent fmt x) - int (EXP_BIAS fmt)"

definition get_mantissa :: "format \<Rightarrow> nat \<Rightarrow> nat" where
  "get_mantissa fmt x = x mod 2 ^ FRACTION_LEN fmt"

definition is_neg :: "format \<Rightarrow> nat \<Rightarrow> bool" where
  "is_neg fmt x \<longleftrightarrow> (x div SIGN_MASK fmt) mod 2 = 1"

definition is_pos :: "format \<Rightarrow> nat \<Rightarrow> bool" where
  "is_pos fmt x \<longleftrightarrow> \<not> is_neg fmt x"

definition is_inf_or_nan :: "format \<Rightarrow> nat \<Rightarrow> bool" where
  "is_inf_or_nan fmt x \<longleftrightarrow> biased_exponent fmt x = EXP_MAX fmt"

definition is_nan :: "format \<Rightarrow> nat \<Rightarrow> bool" where
  "is_nan fmt x \<longleftrightarrow> is_inf_or_nan fmt x \<and> get_mantissa fmt x \<noteq> 0"

definition is_zero :: "format \<Rightarrow> nat \<Rightarrow> bool" where
  "is_zero fmt x \<longleftrightarrow> x mod SIGN_MASK fmt = 0"

definition uintval :: "format \<Rightarrow> nat \<Rightarrow> nat" where
  "uintval fmt x = x mod 2 ^ TOTAL_LEN fmt"

definition set_uintval :: "format \<Rightarrow> nat \<Rightarrow> nat" where
  "set_uintval fmt v = v mod 2 ^ TOTAL_LEN fmt"

definition set_mantissa :: "format \<Rightarrow> nat \<Rightarrow> nat \<Rightarrow> nat" where
  "set_mantissa fmt x m =
     (x div 2 ^ FRACTION_LEN fmt) * 2 ^ FRACTION_LEN fmt + m mod 2 ^ FRACTION_LEN fmt"

definition sign_bits :: "format \<Rightarrow> bool \<Rightarrow> nat" where
  "sign_bits fmt neg = (if neg then SIGN_MASK fmt else 0)"

definition create_value :: "format \<Rightarrow> bool \<Rightarrow> nat \<Rightarrow> nat \<Rightarrow> nat" where
  "create_value fmt neg biased_exp mantissa =
     sign_bits fmt neg + (biased_exp mod 2 ^ EXP_LEN fmt) * 2 ^ FRACTION_LEN fmt
       + mantissa mod (SIG_MASK fmt + 1)"

definition FPBits_zero :: "format \<Rightarrow> bool \<Rightarrow> nat" where
  "FPBits_zero fmt neg = create_value fmt neg 0 0"

definition FPBits_one :: "format \<Rightarrow> bool \<Rightarrow> nat" where
  "FPBits_one fmt neg = create_value fmt neg (EXP_BIAS fmt) 0"

definition quiet_nan :: "format \<Rightarrow> nat" where
  "quiet_nan fmt = create_value fmt False (EXP_MAX fmt) (2 ^ (FRACTION_LEN fmt - 1))"

section \<open>The arithmetic of the floating type\<close>

text \<open>
  The value of a finite pattern, as an integer multiple of the least subnormal
  \<open>2 ^ (1 - EXP_BIAS - FRACTION_LEN)\<close>: \<open>smag\<close> is the magnitude, \<open>sval\<close> the signed
  value, \<open>unit\<close> is what the literal \<open>1.0\<close> measures, and \<open>fval\<close> is the rational
  value. On an infinity \<open>smag\<close> is larger than on every finite pattern, so that
  comparisons can read it as well.
\<close>

definition smag :: "format \<Rightarrow> nat \<Rightarrow> nat" where
  "smag fmt x =
     (if biased_exponent fmt x = 0 then get_mantissa fmt x
      else (2 ^ FRACTION_LEN fmt + get_mantissa fmt x) * 2 ^ (biased_exponent fmt x - 1))"

definition sval :: "format \<Rightarrow> nat \<Rightarrow> int" where
  "sval fmt x = (if is_neg fmt x then - int (smag fmt x) else int (smag fmt x))"

definition unit :: "format \<Rightarrow> nat" where
  "unit fmt = 2 ^ (FRACTION_LEN fmt + EXP_BIAS fmt - 1)"

definition fval :: "format \<Rightarrow> nat \<Rightarrow> rat" where
  "fval fmt x = of_int (sval fmt x) / of_nat (unit fmt)"

text \<open>The ambient rounding direction of the floating-point environment.\<close>

datatype fe_round = FE_TONEAREST | FE_UPWARD | FE_DOWNWARD | FE_TOWARDZERO

fun bit_len :: "nat \<Rightarrow> nat" where
  "bit_len n = (if n = 0 then 0 else 1 + bit_len (n div 2))"

declare bit_len.simps [simp del]

text \<open>
  The language's own \<open>+\<close> and \<open>-\<close> on \<open>T\<close> are IEEE 754 operations: the exact sum,
  rounded to the format in the ambient direction. \<open>round_scaled\<close> rounds a magnitude
  \<open>n\<close> (in units of the least subnormal) to a pattern without sign: it drops the \<open>k\<close>
  low bits that do not fit \<open>FRACTION_LEN + 1\<close> significant bits, increments as the
  direction says, and overflows to infinity or to the largest finite pattern.
\<close>

definition round_incr :: "fe_round \<Rightarrow> bool \<Rightarrow> nat \<Rightarrow> nat \<Rightarrow> nat \<Rightarrow> bool" where
  "round_incr rm neg q r k =
     (case rm of
        FE_TONEAREST \<Rightarrow> 2 * r > 2 ^ k \<or> (2 * r = 2 ^ k \<and> odd q)
      | FE_UPWARD \<Rightarrow> r \<noteq> 0 \<and> \<not> neg
      | FE_DOWNWARD \<Rightarrow> r \<noteq> 0 \<and> neg
      | FE_TOWARDZERO \<Rightarrow> False)"

definition round_overflow :: "format \<Rightarrow> fe_round \<Rightarrow> bool \<Rightarrow> nat" where
  "round_overflow fmt rm neg =
     (let inf = EXP_MAX fmt * 2 ^ FRACTION_LEN fmt
      in case rm of
           FE_TONEAREST \<Rightarrow> inf
         | FE_UPWARD \<Rightarrow> if neg then inf - 1 else inf
         | FE_DOWNWARD \<Rightarrow> if neg then inf else inf - 1
         | FE_TOWARDZERO \<Rightarrow> inf - 1)"

definition round_scaled :: "format \<Rightarrow> fe_round \<Rightarrow> bool \<Rightarrow> nat \<Rightarrow> nat" where
  "round_scaled fmt rm neg n =
     (let k = bit_len n - (FRACTION_LEN fmt + 1);
          q = n div 2 ^ k;
          r = n mod 2 ^ k;
          b = k * 2 ^ FRACTION_LEN fmt + q + (if round_incr rm neg q r k then 1 else 0)
      in if b \<ge> EXP_MAX fmt * 2 ^ FRACTION_LEN fmt then round_overflow fmt rm neg else b)"

definition fneg :: "format \<Rightarrow> nat \<Rightarrow> nat" where
  "fneg fmt x = (if is_neg fmt x then x - SIGN_MASK fmt else x + SIGN_MASK fmt)"

definition fadd :: "format \<Rightarrow> fe_round \<Rightarrow> nat \<Rightarrow> nat \<Rightarrow> nat" where
  "fadd fmt rm a b =
     (if is_nan fmt a \<or> is_nan fmt b then quiet_nan fmt
      else if is_inf_or_nan fmt a then
        (if is_inf_or_nan fmt b \<and> is_neg fmt a \<noteq> is_neg fmt b then quiet_nan fmt else a)
      else if is_inf_or_nan fmt b then b
      else
        let s = sval fmt a + sval fmt b
        in if s = 0 then
             FPBits_zero fmt
               (if is_neg fmt a = is_neg fmt b then is_neg fmt a else rm = FE_DOWNWARD)
           else sign_bits fmt (s < 0) + round_scaled fmt rm (s < 0) (nat \<bar>s\<bar>))"

definition fsub :: "format \<Rightarrow> fe_round \<Rightarrow> nat \<Rightarrow> nat \<Rightarrow> nat" where
  "fsub fmt rm a b = (if is_nan fmt b then quiet_nan fmt else fadd fmt rm a (fneg fmt b))"

definition flt :: "format \<Rightarrow> nat \<Rightarrow> nat \<Rightarrow> bool" where
  "flt fmt a b \<longleftrightarrow> \<not> is_nan fmt a \<and> \<not> is_nan fmt b \<and> sval fmt a < sval fmt b"

definition fgt :: "format \<Rightarrow> nat \<Rightarrow> nat \<Rightarrow> bool" where
  "fgt fmt a b \<longleftrightarrow> flt fmt b a"

definition fne :: "format \<Rightarrow> nat \<Rightarrow> nat \<Rightarrow> bool" where
  "fne fmt a b \<longleftrightarrow> is_nan fmt a \<or> is_nan fmt b \<or> sval fmt a \<noteq> sval fmt b"

text \<open>The literals \<open>T(0.0)\<close>, \<open>T(-0.0)\<close>, \<open>T(1.0)\<close>, \<open>T(-1.0)\<close>, \<open>T(2.0)\<close>, \<open>T(-2.0)\<close>.\<close>

definition lit_zero :: "format \<Rightarrow> bool \<Rightarrow> nat" where
  "lit_zero fmt neg = sign_bits fmt neg"

definition lit_one :: "format \<Rightarrow> bool \<Rightarrow> nat" where
  "lit_one fmt neg = sign_bits fmt neg + EXP_BIAS fmt * 2 ^ FRACTION_LEN fmt"

definition lit_two :: "format \<Rightarrow> bool \<Rightarrow> nat" where
  "lit_two fmt neg = sign_bits fmt neg + (EXP_BIAS fmt + 1) * 2 ^ FRACTION_LEN fmt"

section \<open>NearestIntegerOperations.h\<close>

definition trunc :: "format \<Rightarrow> nat \<Rightarrow> nat" where
  "trunc fmt x =
     (if is_inf_or_nan fmt x then x
      else
        let exponent = get_exponent fmt x
        in if exponent \<ge> int (FRACTION_LEN fmt) then x
           else if exponent \<le> -1 then FPBits_zero fmt (is_neg fmt x)
           else
             let trim_size = nat (int (FRACTION_LEN fmt) - exponent);
                 trunc_mantissa =
                   ((get_mantissa fmt x div 2 ^ trim_size) * 2 ^ trim_size) mod 2 ^ TOTAL_LEN fmt
             in set_mantissa fmt x trunc_mantissa)"

definition ceil :: "format \<Rightarrow> fe_round \<Rightarrow> nat \<Rightarrow> nat" where
  "ceil fmt rm x =
     (if is_inf_or_nan fmt x \<or> is_zero fmt x then x
      else
        let is_neg_x = is_neg fmt x;
            exponent = get_exponent fmt x
        in if exponent \<ge> int (FRACTION_LEN fmt) then x
           else if exponent \<le> -1 then (if is_neg_x then lit_zero fmt True else lit_one fmt False)
           else
             let trim_size = nat (int (FRACTION_LEN fmt) - exponent);
                 x_u = uintval fmt x;
                 trunc_u = ((x_u div 2 ^ trim_size) * 2 ^ trim_size) mod 2 ^ TOTAL_LEN fmt
             in if trunc_u = x_u then x
                else
                  let trunc_value = set_uintval fmt trunc_u
                  in if is_neg_x then trunc_value
                     else fadd fmt rm trunc_value (lit_one fmt False))"

definition floor_fp :: "format \<Rightarrow> fe_round \<Rightarrow> nat \<Rightarrow> nat" where
  "floor_fp fmt rm x =
     (if is_neg fmt x then fneg fmt (ceil fmt rm (fneg fmt x)) else trunc fmt x)"

definition round_fp :: "format \<Rightarrow> fe_round \<Rightarrow> nat \<Rightarrow> nat" where
  "round_fp fmt rm x =
     (if is_inf_or_nan fmt x \<or> is_zero fmt x then x
      else
        let exponent = get_exponent fmt x
        in if exponent \<ge> int (FRACTION_LEN fmt) then x
           else if exponent = -1 then FPBits_one fmt (is_neg fmt x)
           else if exponent \<le> -2 then FPBits_zero fmt (is_neg fmt x)
           else
             let trim_size = nat (int (FRACTION_LEN fmt) - exponent);
                 half_bit_set = ((get_mantissa fmt x div 2 ^ (trim_size - 1)) mod 2 \<noteq> 0);
                 x_u = uintval fmt x;
                 trunc_u = ((x_u div 2 ^ trim_size) * 2 ^ trim_size) mod 2 ^ TOTAL_LEN fmt
             in if trunc_u = x_u then x
                else
                  let trunc_value = set_uintval fmt trunc_u
                  in if \<not> half_bit_set then trunc_value
                     else if is_neg fmt trunc_value
                          then fsub fmt rm trunc_value (lit_one fmt False)
                          else fadd fmt rm trunc_value (lit_one fmt False))"

text \<open>
  Modelled from the spec: the five mode selectors of the math macros header (not in the
  sources at hand), with the values LLVM's libc gives them; the functions below only
  compare a mode with them.
\<close>

definition FP_INT_UPWARD :: int where "FP_INT_UPWARD = 0"
definition FP_INT_DOWNWARD :: int where "FP_INT_DOWNWARD = 1"
definition FP_INT_TOWARDZERO :: int where "FP_INT_TOWARDZERO = 2"
definition FP_INT_TONEARESTFROMZERO :: int where "FP_INT_TONEARESTFROMZERO = 3"
definition FP_INT_TONEAREST :: int where "FP_INT_TONEAREST = 4"

definition round_using_specific_rounding_mode ::
  "format \<Rightarrow> fe_round \<Rightarrow> nat \<Rightarrow> int \<Rightarrow> nat" where
  "round_using_specific_rounding_mode fmt rm x rnd =
     (if is_inf_or_nan fmt x \<or> is_zero fmt x then x
      else
        let is_neg_x = is_neg fmt x;
            exponent = get_exponent fmt x
        in if exponent \<ge> int (FRACTION_LEN fmt) then x
           else if exponent \<le> -1 then
             (if rnd = FP_INT_DOWNWARD then (if is_neg_x then lit_one fmt True else lit_zero fmt False)
              else if rnd = FP_INT_UPWARD then (if is_neg_x then lit_zero fmt True else lit_one fmt False)
              else if rnd = FP_INT_TOWARDZERO then lit_zero fmt is_neg_x
              else if rnd = FP_INT_TONEARESTFROMZERO then
                (if exponent < -1 then lit_zero fmt is_neg_x else lit_one fmt is_neg_x)
              else
                (if exponent \<le> -2 \<or> get_mantissa fmt x = 0 then lit_zero fmt is_neg_x
                 else lit_one fmt is_neg_x))
           else
             let trim_size = nat (int (FRACTION_LEN fmt) - exponent);
                 x_u = uintval fmt x;
                 trunc_u = ((x_u div 2 ^ trim_size) * 2 ^ trim_size) mod 2 ^ TOTAL_LEN fmt
             in if trunc_u = x_u then x
                else
                  let trunc_value = trunc_u;
                      trim_value = get_mantissa fmt x mod 2 ^ trim_size;
                      half_value = (2 ^ (trim_size - 1)) mod 2 ^ TOTAL_LEN fmt;
                      trunc_is_odd = (get_mantissa fmt trunc_u div 2 ^ trim_size) mod 2 \<noteq> 0
                  in if rnd = FP_INT_DOWNWARD then
                       (if is_neg_x then fsub fmt rm trunc_value (lit_one fmt False)
                        else trunc_value)
                     else if rnd = FP_INT_UPWARD then
                       (if is_neg_x then trunc_value
                        else fadd fmt rm trunc_value (lit_one fmt False))
                     else if rnd = FP_INT_TOWARDZERO then trunc_value
                     else if rnd = FP_INT_TONEARESTFROMZERO then
                       (if trim_value \<ge> half_value then
                          (if is_neg_x then fsub fmt rm trunc_value (lit_one fmt False)
                           else fadd fmt rm trunc_value (lit_one fmt False))
                        else trunc_value)
                     else
                       (if trim_value > half_value then
                          (if is_neg_x then fsub fmt rm trunc_value (lit_one fmt False)
                           else fadd fmt rm trunc_value (lit_one fmt False))
                        else if trim_value = half_value then
                          (if exponent = 0 then lit_two fmt is_neg_x
                           else if trunc_is_odd then
                             (if is_neg_x then fsub fmt rm trunc_value (lit_one fmt False)
                              else fadd fmt rm trunc_value (lit_one fmt False))
                           else trunc_value)
                        else trunc_value))"

section \<open>The floating-point environment\<close>

text \<open>
  Modelled from the spec: the environment subsystem (FEnvImpl.h is not in the sources at
  hand), in the build where exception and errno support are both enabled: the ambient
  rounding direction that \<open>quick_get_round\<close> reads and the hardware arithmetic obeys,
  the exception status flags, which \<open>raise_except_if_required\<close> sets and which the
  hardware arithmetic sets as well, and the errno value stored by
  \<open>set_errno_if_required\<close>.
\<close>

datatype fexcept = FE_INVALID | FE_INEXACT | FE_OVERFLOW

record fenv =
  rounding :: fe_round
  excepts :: "fexcept set"
  errno :: int

definition EDOM :: int where "EDOM = 33"

definition raise_except_if_required :: "fexcept \<Rightarrow> fenv \<Rightarrow> fenv" where
  "raise_except_if_required e env = env\<lparr>excepts := insert e (excepts env)\<rparr>"

definition set_errno_if_required :: "int \<Rightarrow> fenv \<Rightarrow> fenv" where
  "set_errno_if_required v env = env\<lparr>errno := v\<rparr>"

definition quick_get_round :: "fenv \<Rightarrow> fe_round" where
  "quick_get_round env = rounding env"

text \<open>
  The status flags that an IEEE 754 addition or subtraction sets under default
  exception handling: invalid for a signaling NaN operand and for the sum of opposite
  infinities, overflow together with inexact when the rounded result leaves the finite
  range, and inexact when the exact sum has nonzero bits among those that \<open>round_scaled\<close>
  drops. A sum in the subnormal range is exact, so no underflow is signalled.
  \<open>set_flags\<close> accumulates flags in the environment.
\<close>

definition is_signaling_nan :: "format \<Rightarrow> nat \<Rightarrow> bool" where
  "is_signaling_nan fmt x \<longleftrightarrow>
     is_nan fmt x \<and> even (get_mantissa fmt x div 2 ^ (FRACTION_LEN fmt - 1))"

definition round_excepts :: "format \<Rightarrow> fe_round \<Rightarrow> bool \<Rightarrow> nat \<Rightarrow> fexcept set" where
  "round_excepts fmt rm neg n =
     (let k = bit_len n - (FRACTION_LEN fmt + 1);
          q = n div 2 ^ k;
          r = n mod 2 ^ k;
          b = k * 2 ^ FRACTION_LEN fmt + q + (if round_incr rm neg q r k then 1 else 0)
      in if b \<ge> EXP_MAX fmt * 2 ^ FRACTION_LEN fmt then {FE_OVERFLOW, FE_INEXACT}
         else if r \<noteq> 0 then {FE_INEXACT} else {})"

definition fadd_excepts :: "format \<Rightarrow> fe_round \<Rightarrow> nat \<Rightarrow> nat \<Rightarrow> fexcept set" where
  "fadd_excepts fmt rm a b =
     (if is_nan fmt a \<or> is_nan fmt b then
        (if is_signaling_nan fmt a \<or> is_signaling_nan fmt b then {FE_INVALID} else {})
      else if is_inf_or_nan fmt a then
        (if is_inf_or_nan fmt b \<and> is_neg fmt a \<noteq> is_neg fmt b then {FE_INVALID} else {})
      else if is_inf_or_nan fmt b then {}
      else
        let s = sval fmt a + sval fmt b
        in if s = 0 then {} else round_excepts fmt rm (s < 0) (nat \<bar>s\<bar>))"

definition fsub_excepts :: "format \<Rightarrow> fe_round \<Rightarrow> nat \<Rightarrow> nat \<Rightarrow> fexcept set" where
  "fsub_excepts fmt rm a b =
     (if is_nan fmt b then
        (if is_signaling_nan fmt a \<or> is_signaling_nan fmt b then {FE_INVALID} else {})
      else fadd_excepts fmt rm a (fneg fmt b))"

definition set_flags :: "fexcept set \<Rightarrow> fenv \<Rightarrow> fenv" where
  "set_flags es env = env\<lparr>excepts := excepts env \<union> es\<rparr>"

section \<open>Conversions with a range check\<close>

definition round_using_current_rounding_mode :: "format \<Rightarrow> fenv \<Rightarrow> nat \<Rightarrow> nat" where
  "round_using_current_rounding_mode fmt env x =
     (case quick_get_round env of
        FE_DOWNWARD \<Rightarrow> round_using_specific_rounding_mode fmt (rounding env) x FP_INT_DOWNWARD
      | FE_UPWARD \<Rightarrow> round_using_specific_rounding_mode fmt (rounding env) x FP_INT_UPWARD
      | FE_TOWARDZERO \<Rightarrow> round_using_specific_rounding_mode fmt (rounding env) x FP_INT_TOWARDZERO
      | FE_TONEAREST \<Rightarrow> round_using_specific_rounding_mode fmt (rounding env) x FP_INT_TONEAREST)"

definition EXPLICIT_BIT :: "format \<Rightarrow> nat" where
  "EXPLICIT_BIT fmt = SIG_MASK fmt - FRACTION_MASK fmt"

definition invalid_nan :: "format \<Rightarrow> fenv \<Rightarrow> nat \<times> fenv" where
  "invalid_nan fmt env = (quiet_nan fmt, raise_except_if_required FE_INVALID env)"

text \<open>
  \<open>fromfp\<close>. The bound \<open>range_max\<close> is computed by a subtraction on \<open>T\<close>, which is
  executed after the test against \<open>range_min\<close> (respectively against \<open>T(0.0)\<close> and the
  test of the width) and leaves its status flags in the environment that the rest of
  the function, and the caller, see. The comparisons have no NaN operand there and set
  no flag, and the additions of \<open>1.0\<close> inside \<open>round_using_specific_rounding_mode\<close>
  are exact and set none either (lemmas \<open>fadd_excepts_away\<close> and
  \<open>fsub_excepts_away\<close> below).
\<close>

definition fromfp :: "format \<Rightarrow> bool \<Rightarrow> nat \<Rightarrow> int \<Rightarrow> nat \<Rightarrow> fenv \<Rightarrow> nat \<times> fenv" where
  "fromfp fmt IsSigned x rnd width env =
     (if width = 0 then invalid_nan fmt env
      else if is_inf_or_nan fmt x then invalid_nan fmt env
      else
        let rounded_value = round_using_specific_rounding_mode fmt (rounding env) x rnd
        in if IsSigned then
             (if width - 1 > EXP_BIAS fmt then (rounded_value, env)
              else
                let range_exp = (width - 1 + EXP_BIAS fmt) mod 2 ^ TOTAL_LEN fmt;
                    range_min = create_value fmt True range_exp (EXPLICIT_BIT fmt)
                in if flt fmt rounded_value range_min then invalid_nan fmt env
                   else
                     let pow = create_value fmt False range_exp (EXPLICIT_BIT fmt);
                         range_max = fsub fmt (rounding env) pow (lit_one fmt False);
                         env1 = set_flags
                           (fsub_excepts fmt (rounding env) pow (lit_one fmt False)) env
                     in if fgt fmt rounded_value range_max then invalid_nan fmt env1
                        else (rounded_value, env1))
           else if flt fmt rounded_value (lit_zero fmt False) then invalid_nan fmt env
           else if width > EXP_BIAS fmt then (rounded_value, env)
           else
             let range_exp = (width + EXP_BIAS fmt) mod 2 ^ TOTAL_LEN fmt;
                 pow = create_value fmt False range_exp (EXPLICIT_BIT fmt);
                 range_max = fsub fmt (rounding env) pow (lit_one fmt False);
                 env1 = set_flags
                   (fsub_excepts fmt (rounding env) pow (lit_one fmt False)) env
             in if fgt fmt rounded_value range_max then invalid_nan fmt env1
                else (rounded_value, env1))"

definition fromfpx :: "format \<Rightarrow> bool \<Rightarrow> nat \<Rightarrow> int \<Rightarrow> nat \<Rightarrow> fenv \<Rightarrow> nat \<times> fenv" where
  "fromfpx fmt IsSigned x rnd width env =
     (let (rounded_value, env1) = fromfp fmt IsSigned x rnd width env
      in if \<not> is_nan fmt rounded_value \<and> fne fmt rounded_value x
         then (rounded_value, raise_except_if_required FE_INEXACT env1)
         else (rounded_value, env1))"

section \<open>Conversion to a native signed integer\<close>

text \<open>
  \<open>IntType\<close> is given by its width \<open>W\<close> in bits. The language's conversion
  \<open>static_cast<IntType>(x)\<close> discards the fraction; where the value does not fit the
  type the behaviour is undefined, which is the result \<open>None\<close>.
\<close>

definition INTEGER_MIN :: "nat \<Rightarrow> int" where
  "INTEGER_MIN W = - (2 ^ (W - 1))"

definition INTEGER_MAX :: "nat \<Rightarrow> int" where
  "INTEGER_MAX W = - (INTEGER_MIN W + 1)"

definition static_cast_int :: "format \<Rightarrow> nat \<Rightarrow> nat \<Rightarrow> int option" where
  "static_cast_int fmt W x =
     (if is_inf_or_nan fmt x then None
      else
        let v = (if is_neg fmt x then - int (smag fmt x div unit fmt)
                 else int (smag fmt x div unit fmt))
        in if INTEGER_MIN W \<le> v \<and> v \<le> INTEGER_MAX W then Some v else None)"

definition set_domain_error_and_raise_invalid :: "fenv \<Rightarrow> fenv" where
  "set_domain_error_and_raise_invalid env =
     raise_except_if_required FE_INVALID (set_errno_if_required EDOM env)"

definition rounded_float_to_signed_integer ::
  "format \<Rightarrow> nat \<Rightarrow> nat \<Rightarrow> fenv \<Rightarrow> int option \<times> fenv" where
  "rounded_float_to_signed_integer fmt W x env =
     (if is_inf_or_nan fmt x then
        (Some (if is_neg fmt x then INTEGER_MIN W else INTEGER_MAX W),
         set_domain_error_and_raise_invalid env)
      else
        let exponent = get_exponent fmt x;
            EXPONENT_LIMIT = int W - 1
        in if exponent > EXPONENT_LIMIT then
             (Some (if is_neg fmt x then INTEGER_MIN W else INTEGER_MAX W),
              set_domain_error_and_raise_invalid env)
           else if exponent = EXPONENT_LIMIT \<and> (is_pos fmt x \<or> get_mantissa fmt x \<noteq> 0) then
             (Some (if is_neg fmt x then INTEGER_MIN W else INTEGER_MAX W),
              set_domain_error_and_raise_invalid env)
           else (static_cast_int fmt W x, env))"

definition round_to_signed_integer ::
  "format \<Rightarrow> nat \<Rightarrow> nat \<Rightarrow> fenv \<Rightarrow> int option \<times> fenv" where
  "round_to_signed_integer fmt W x env =
     rounded_float_to_signed_integer fmt W (round_fp fmt (rounding env) x) env"

definition round_to_signed_integer_using_current_rounding_mode ::
  "format \<Rightarrow> nat \<Rightarrow> nat \<Rightarrow> fenv \<Rightarrow> int option \<times> fenv" where
  "round_to_signed_integer_using_current_rounding_mode fmt W x env =
     rounded_float_to_signed_integer fmt W (round_using_current_rounding_mode fmt env x) env"

section \<open>Notions for stating intermediate results\<close>

text \<open>
  For a finite \<open>x\<close> with unbiased exponent between \<open>0\<close> and \<open>FRACTION_LEN - 1\<close>
  (\<open>mid_range\<close>) the functions above clear the low \<open>trim_size\<close> bits of the pattern
  (\<open>trunc_bits\<close>) and, where they move away from zero, add one unit at the position
  \<open>trim_size\<close> (\<open>away_bits\<close>); \<open>int_part\<close> is the integer part of the magnitude.
\<close>

definition trim_size_of :: "format \<Rightarrow> nat \<Rightarrow> nat" where
  "trim_size_of fmt x = nat (int (FRACTION_LEN fmt) - get_exponent fmt x)"

definition trunc_bits :: "format \<Rightarrow> nat \<Rightarrow> nat" where
  "trunc_bits fmt x = x - x mod 2 ^ trim_size_of fmt x"

definition away_bits :: "format \<Rightarrow> nat \<Rightarrow> nat" where
  "away_bits fmt x = trunc_bits fmt x + 2 ^ trim_size_of fmt x"

definition int_part :: "format \<Rightarrow> nat \<Rightarrow> nat" where
  "int_part fmt x = 2 ^ nat (get_exponent fmt x) + get_mantissa fmt x div 2 ^ trim_size_of fmt x"

definition mid_range :: "format \<Rightarrow> nat \<Rightarrow> bool" where
  "mid_range fmt x \<longleftrightarrow>
     wf_format fmt \<and> valid fmt x \<and> \<not> is_inf_or_nan fmt x \<and>
     0 \<le> get_exponent fmt x \<and> get_exponent fmt x < int (FRACTION_LEN fmt)"

text \<open>
  A pattern that every rounding function returns unchanged: an infinity, a NaN, a zero, a
  value whose exponent leaves no fraction bit, or a value whose trimmed bits are all zero.
\<close>

definition integral_pat :: "format \<Rightarrow> nat \<Rightarrow> bool" where
  "integral_pat fmt y \<longleftrightarrow>
     valid fmt y \<and>
     (is_inf_or_nan fmt y \<or> is_zero fmt y \<or> int (FRACTION_LEN fmt) \<le> get_exponent fmt y \<or>
      (mid_range fmt y \<and> get_mantissa fmt y mod 2 ^ trim_size_of fmt y = 0))"

section \<open>Bit patterns and their fields\<close>

lemma bit_len_bounds: "2 ^ j \<le> n \<Longrightarrow> n < 2 ^ Suc j \<Longrightarrow> bit_len n = Suc j"
proof (induction j arbitrary: n)
  case 0
  then have "n = 1" by simp
  then show ?case by (simp add: bit_len.simps)
next
  case (Suc j)
  have "2 ^ j \<le> n div 2" using Suc.prems(1) by simp
  moreover have "n div 2 < 2 ^ Suc j" using Suc.prems(2) by simp
  ultimately have "bit_len (n div 2) = Suc j" by (rule Suc.IH)
  moreover have "(0::nat) < 2 ^ Suc j" by simp
  then have "n \<noteq> 0" using Suc.prems(1) by linarith
  ultimately show ?case by (subst bit_len.simps) simp
qed

lemma bit_len_less: "n < 2 ^ j \<Longrightarrow> bit_len n \<le> j"
proof (induction j arbitrary: n)
  case 0
  then show ?case by (simp add: bit_len.simps)
next
  case (Suc j)
  have "n div 2 < 2 ^ j" using Suc.prems by simp
  then have "bit_len (n div 2) \<le> j" by (rule Suc.IH)
  then show ?case by (subst bit_len.simps) simp
qed

lemma wf_bias: "wf_format fmt \<Longrightarrow> 3 \<le> EXP_BIAS fmt"
proof -
  assume "wf_format fmt"
  then have "3 \<le> EXP_LEN fmt" by (simp add: wf_format_def)
  then obtain l where l: "EXP_LEN fmt = l + 3" by (metis add.commute le_Suc_ex)
  have "(1::nat) \<le> 2 ^ l" by simp
  then have "(4::nat) \<le> 2 ^ (l + 2)" by (simp add: power_add)
  then have "(3::nat) \<le> 2 ^ (l + 2) - 1" by linarith
  then show ?thesis by (simp add: EXP_BIAS_def l)
qed

lemma wf_exp_max: "wf_format fmt \<Longrightarrow> EXP_MAX fmt = 2 * EXP_BIAS fmt + 1"
proof -
  assume "wf_format fmt"
  then have "3 \<le> EXP_LEN fmt" by (simp add: wf_format_def)
  then obtain l where l: "EXP_LEN fmt = Suc l" by (metis Suc_le_D numeral_3_eq_3)
  have "(1::nat) \<le> 2 ^ l" by simp
  then have "(2::nat) * 2 ^ l - 1 = 2 * (2 ^ l - 1) + 1" by linarith
  then show ?thesis by (simp add: EXP_BIAS_def EXP_MAX_def l)
qed

lemma wf_exp_len: "wf_format fmt \<Longrightarrow> 2 ^ EXP_LEN fmt = EXP_MAX fmt + 1"
  by (simp add: EXP_MAX_def)

lemma fields_raw:
  fixes m E s F L :: nat
  assumes "m < 2 ^ F" "E < 2 ^ L" "s < 2"
  shows "((s * 2 ^ (L + F) + E * 2 ^ F + m) div 2 ^ F) mod 2 ^ L = E"
    and "(s * 2 ^ (L + F) + E * 2 ^ F + m) mod 2 ^ F = m"
    and "((s * 2 ^ (L + F) + E * 2 ^ F + m) div 2 ^ (L + F)) mod 2 = s"
    and "(s * 2 ^ (L + F) + E * 2 ^ F + m) mod 2 ^ (L + F) = E * 2 ^ F + m"
    and "s * 2 ^ (L + F) + E * 2 ^ F + m < 2 ^ (1 + L + F)"
proof -
  have eq: "s * 2 ^ (L + F) + E * 2 ^ F + m = (s * 2 ^ L + E) * 2 ^ F + m"
    by (simp add: power_add algebra_simps)
  have d: "(s * 2 ^ (L + F) + E * 2 ^ F + m) div 2 ^ F = s * 2 ^ L + E"
    unfolding eq using assms(1) by simp
  show "((s * 2 ^ (L + F) + E * 2 ^ F + m) div 2 ^ F) mod 2 ^ L = E"
    unfolding d using assms(2) by simp
  show "(s * 2 ^ (L + F) + E * 2 ^ F + m) mod 2 ^ F = m"
    unfolding eq using assms(1) by simp
  have em: "E * 2 ^ F + m < 2 ^ (L + F)"
  proof -
    have "E * 2 ^ F + m < (E + 1) * 2 ^ F" using assms(1) by simp
    also have "\<dots> \<le> 2 ^ L * 2 ^ F" using assms(2) by (intro mult_right_mono) auto
    finally show ?thesis by (simp add: power_add)
  qed
  have eq2: "s * 2 ^ (L + F) + E * 2 ^ F + m = s * 2 ^ (L + F) + (E * 2 ^ F + m)" by simp
  show "((s * 2 ^ (L + F) + E * 2 ^ F + m) div 2 ^ (L + F)) mod 2 = s"
    unfolding eq2 using em assms(3) by simp
  show "(s * 2 ^ (L + F) + E * 2 ^ F + m) mod 2 ^ (L + F) = E * 2 ^ F + m"
    unfolding eq2 using em by simp
  have "s * 2 ^ (L + F) + (E * 2 ^ F + m) < (s + 1) * 2 ^ (L + F)" using em by simp
  also have "\<dots> \<le> 2 * 2 ^ (L + F)" using assms(3) by (intro mult_right_mono) auto
  finally show "s * 2 ^ (L + F) + E * 2 ^ F + m < 2 ^ (1 + L + F)" by (simp add: eq2 add.assoc)
qed

lemma sig_mask_succ: "SIG_MASK fmt + 1 = 2 ^ FRACTION_LEN fmt"
  by (simp add: SIG_MASK_def FRACTION_MASK_def)

lemma sig_mask_Suc: "Suc (SIG_MASK fmt) = 2 ^ FRACTION_LEN fmt"
  by (simp add: SIG_MASK_def FRACTION_MASK_def)

lemma sign_bits_alt: "sign_bits fmt s = (if s then 1 else 0) * 2 ^ (EXP_LEN fmt + FRACTION_LEN fmt)"
  by (simp add: sign_bits_def SIGN_MASK_def)

lemma create_value_in_range:
  "m < 2 ^ FRACTION_LEN fmt \<Longrightarrow> E < 2 ^ EXP_LEN fmt \<Longrightarrow>
   create_value fmt s E m = sign_bits fmt s + E * 2 ^ FRACTION_LEN fmt + m"
  by (simp add: create_value_def sig_mask_Suc)

lemma create_value_fields:
  assumes "m < 2 ^ FRACTION_LEN fmt" "E < 2 ^ EXP_LEN fmt"
  shows "biased_exponent fmt (create_value fmt s E m) = E"
    and "get_mantissa fmt (create_value fmt s E m) = m"
    and "is_neg fmt (create_value fmt s E m) = s"
    and "create_value fmt s E m mod SIGN_MASK fmt = E * 2 ^ FRACTION_LEN fmt + m"
    and "valid fmt (create_value fmt s E m)"
proof -
  let ?s = "(if s then 1 else 0) :: nat"
  have s: "?s < 2" by simp
  note raw = fields_raw [OF assms s]
  have cv: "create_value fmt s E m =
      ?s * 2 ^ (EXP_LEN fmt + FRACTION_LEN fmt) + E * 2 ^ FRACTION_LEN fmt + m"
    using assms by (simp only: create_value_in_range sign_bits_alt)
  show "biased_exponent fmt (create_value fmt s E m) = E"
    unfolding cv biased_exponent_def by (rule raw(1))
  show "get_mantissa fmt (create_value fmt s E m) = m"
    unfolding cv get_mantissa_def by (rule raw(2))
  show "is_neg fmt (create_value fmt s E m) = s"
    unfolding cv is_neg_def SIGN_MASK_def using raw(3) by simp
  show "create_value fmt s E m mod SIGN_MASK fmt = E * 2 ^ FRACTION_LEN fmt + m"
    unfolding cv SIGN_MASK_def by (rule raw(4))
  show "valid fmt (create_value fmt s E m)"
    unfolding cv valid_def TOTAL_LEN_def by (rule raw(5))
qed

lemma get_mantissa_less: "get_mantissa fmt x < 2 ^ FRACTION_LEN fmt"
  by (simp add: get_mantissa_def)

lemma biased_exponent_less: "biased_exponent fmt x < 2 ^ EXP_LEN fmt"
  by (simp add: biased_exponent_def)

lemma valid_create_value:
  assumes "valid fmt x"
  shows "x = create_value fmt (is_neg fmt x) (biased_exponent fmt x) (get_mantissa fmt x)"
proof -
  let ?F = "FRACTION_LEN fmt" and ?L = "EXP_LEN fmt"
  let ?h = "x div 2 ^ ?F"
  have x1: "x = ?h * 2 ^ ?F + x mod 2 ^ ?F" by (rule div_mult_mod_eq [symmetric])
  have h1: "?h = (?h div 2 ^ ?L) * 2 ^ ?L + ?h mod 2 ^ ?L" by (rule div_mult_mod_eq [symmetric])
  have "(2::nat) ^ (?L + ?F) = 2 ^ ?F * 2 ^ ?L" by (simp add: power_add)
  then have top: "?h div 2 ^ ?L = x div 2 ^ (?L + ?F)"
    by (simp only: div_mult2_eq)
  have "x < 2 * 2 ^ (?L + ?F)" using assms by (simp add: valid_def TOTAL_LEN_def)
  then have lt2: "x div 2 ^ (?L + ?F) < 2" by (simp add: less_mult_imp_div_less)
  then have sgn: "x div 2 ^ (?L + ?F) = (if is_neg fmt x then 1 else 0)"
    by (auto simp: is_neg_def SIGN_MASK_def)
  have "x = (x div 2 ^ (?L + ?F)) * 2 ^ (?L + ?F) + biased_exponent fmt x * 2 ^ ?F + get_mantissa fmt x"
  proof -
    have "x = ((?h div 2 ^ ?L) * 2 ^ ?L + ?h mod 2 ^ ?L) * 2 ^ ?F + x mod 2 ^ ?F"
      using x1 h1 by simp
    then show ?thesis
      by (simp add: top biased_exponent_def get_mantissa_def power_add algebra_simps)
  qed
  then have "x = sign_bits fmt (is_neg fmt x) + biased_exponent fmt x * 2 ^ ?F + get_mantissa fmt x"
    by (simp only: sgn sign_bits_alt)
  then show ?thesis
    by (simp add: create_value_in_range get_mantissa_less biased_exponent_less)
qed

lemma smag_create_value:
  assumes "m < 2 ^ FRACTION_LEN fmt" "E < 2 ^ EXP_LEN fmt"
  shows "smag fmt (create_value fmt s E m) =
    (if E = 0 then m else (2 ^ FRACTION_LEN fmt + m) * 2 ^ (E - 1))"
  unfolding smag_def create_value_fields(1,2) [OF assms] by (rule refl)

lemma round_scaled_exact:
  assumes "m < 2 ^ FRACTION_LEN fmt" "E < EXP_MAX fmt"
  shows "round_scaled fmt rm neg (smag fmt (create_value fmt s E m)) = E * 2 ^ FRACTION_LEN fmt + m"
proof -
  let ?F = "FRACTION_LEN fmt"
  have EL: "E < 2 ^ EXP_LEN fmt" using assms(2) by (simp add: EXP_MAX_def)
  have fin: "E * 2 ^ ?F + m < EXP_MAX fmt * 2 ^ ?F"
  proof -
    have "E * 2 ^ ?F + m < (E + 1) * 2 ^ ?F" using assms(1) by simp
    also have "\<dots> \<le> EXP_MAX fmt * 2 ^ ?F" using assms(2) by (intro mult_right_mono) auto
    finally show ?thesis .
  qed
  show ?thesis
  proof (cases "E = 0")
    case True
    have sm: "smag fmt (create_value fmt s E m) = m"
      using smag_create_value [OF assms(1) EL] True by simp
    have "bit_len m \<le> ?F" using assms(1) by (rule bit_len_less)
    then have k: "bit_len m - (?F + 1) = 0" by simp
    have ni: "\<not> round_incr rm neg m 0 0"
      by (simp add: round_incr_def split: fe_round.split)
    have b: "m = E * 2 ^ ?F + m" using True by simp
    show ?thesis
      unfolding sm round_scaled_def Let_def k using ni fin b by simp
  next
    case False
    then obtain E' where E': "E = Suc E'" by (cases E) auto
    let ?n = "(2 ^ ?F + m) * 2 ^ E'"
    have sm: "smag fmt (create_value fmt s E m) = ?n"
      using smag_create_value [OF assms(1) EL] E' by simp
    have lo: "2 ^ (?F + E') \<le> ?n" by (simp add: power_add)
    have "?n < (2 ^ ?F + 2 ^ ?F) * 2 ^ E'" using assms(1) by simp
    then have hi: "?n < 2 ^ Suc (?F + E')" by (simp add: power_add)
    have bl: "bit_len ?n = Suc (?F + E')" using lo hi by (rule bit_len_bounds)
    have k: "bit_len ?n - (?F + 1) = E'" by (simp add: bl)
    have q: "?n div 2 ^ E' = 2 ^ ?F + m" by simp
    have r: "?n mod 2 ^ E' = 0" by simp
    have ni: "\<not> round_incr rm neg (2 ^ ?F + m) 0 E'"
      by (simp add: round_incr_def split: fe_round.split)
    have b: "E' * 2 ^ ?F + (2 ^ ?F + m) = E * 2 ^ ?F + m" by (simp add: E')
    show ?thesis
      unfolding sm round_scaled_def Let_def k q r using ni fin b by simp
  qed
qed

lemma mid_ctx:
  assumes "mid_range fmt x"
  obtains e t E' where
    "get_exponent fmt x = int e"
    "FRACTION_LEN fmt = e + t"
    "1 \<le> t"
    "trim_size_of fmt x = t"
    "biased_exponent fmt x = Suc E'"
    "Suc E' = EXP_BIAS fmt + e"
    "unit fmt = 2 ^ t * 2 ^ E'"
    "Suc (Suc E') < EXP_MAX fmt"
    "x = create_value fmt (is_neg fmt x) (Suc E') (get_mantissa fmt x)"
proof -
  from assms have wf: "wf_format fmt" and v: "valid fmt x"
    and e0: "0 \<le> get_exponent fmt x" and eF: "get_exponent fmt x < int (FRACTION_LEN fmt)"
    by (simp_all add: mid_range_def)
  define e where "e = nat (get_exponent fmt x)"
  define t where "t = FRACTION_LEN fmt - e"
  have ge: "get_exponent fmt x = int e" using e0 by (simp add: e_def)
  have eF': "e < FRACTION_LEN fmt" using eF ge by simp
  have F: "FRACTION_LEN fmt = e + t" using eF' by (simp add: t_def)
  have t1: "1 \<le> t" using eF' by (simp add: t_def)
  have ts: "trim_size_of fmt x = t" by (simp add: trim_size_of_def ge t_def)
  have b3: "3 \<le> EXP_BIAS fmt" using wf by (rule wf_bias)
  have be: "biased_exponent fmt x = EXP_BIAS fmt + e"
    using ge by (simp add: get_exponent_def)
  define E' where "E' = EXP_BIAS fmt + e - 1"
  have SE: "Suc E' = EXP_BIAS fmt + e" using b3 by (simp add: E'_def)
  have bE: "biased_exponent fmt x = Suc E'" using be SE by simp
  have "FRACTION_LEN fmt + EXP_BIAS fmt - 1 = t + E'" using F SE by simp
  then have u: "unit fmt = 2 ^ t * 2 ^ E'" by (simp add: unit_def power_add)
  have Fb: "FRACTION_LEN fmt \<le> EXP_BIAS fmt" using wf by (simp add: wf_format_def)
  have fin: "Suc (Suc E') < EXP_MAX fmt"
    using SE eF' Fb by (simp add: wf_exp_max [OF wf])
  have cv: "x = create_value fmt (is_neg fmt x) (Suc E') (get_mantissa fmt x)"
    using valid_create_value [OF v] bE by simp
  show thesis using ge F t1 ts bE SE u fin cv by (rule that)
qed

lemma mid_low_bits:
  assumes "mid_range fmt x"
  shows "x mod 2 ^ trim_size_of fmt x = get_mantissa fmt x mod 2 ^ trim_size_of fmt x"
proof -
  from assms obtain e t where F: "FRACTION_LEN fmt = e + t" and ts: "trim_size_of fmt x = t"
    by (rule mid_ctx)
  have "(2::nat) ^ t dvd 2 ^ FRACTION_LEN fmt" by (simp add: F power_add)
  then show ?thesis by (simp add: ts get_mantissa_def mod_mod_cancel)
qed

lemma trunc_bits_cv:
  assumes "mid_range fmt x"
  shows "trunc_bits fmt x =
    create_value fmt (is_neg fmt x) (biased_exponent fmt x)
      (get_mantissa fmt x div 2 ^ trim_size_of fmt x * 2 ^ trim_size_of fmt x)"
    and "get_mantissa fmt x div 2 ^ trim_size_of fmt x * 2 ^ trim_size_of fmt x
           < 2 ^ FRACTION_LEN fmt"
proof -
  let ?m = "get_mantissa fmt x" and ?t = "trim_size_of fmt x" and ?E = "biased_exponent fmt x"
  from assms have v: "valid fmt x" by (simp add: mid_range_def)
  have le: "?m div 2 ^ ?t * 2 ^ ?t \<le> ?m" by simp
  then show lt: "?m div 2 ^ ?t * 2 ^ ?t < 2 ^ FRACTION_LEN fmt"
    using get_mantissa_less [of fmt x] by (rule le_less_trans)
  have x: "x = sign_bits fmt (is_neg fmt x) + ?E * 2 ^ FRACTION_LEN fmt + ?m"
    using valid_create_value [OF v]
    by (simp add: create_value_in_range get_mantissa_less biased_exponent_less)
  have "?m mod 2 ^ ?t \<le> ?m" by simp
  then have "x - x mod 2 ^ ?t = sign_bits fmt (is_neg fmt x) + ?E * 2 ^ FRACTION_LEN fmt + (?m - ?m mod 2 ^ ?t)"
    unfolding mid_low_bits [OF assms] using x by linarith
  also have "?m - ?m mod 2 ^ ?t = ?m div 2 ^ ?t * 2 ^ ?t" by (simp add: minus_mod_eq_div_mult)
  finally show "trunc_bits fmt x = create_value fmt (is_neg fmt x) ?E (?m div 2 ^ ?t * 2 ^ ?t)"
    by (simp add: trunc_bits_def create_value_in_range lt biased_exponent_less)
qed

lemma trunc_bits_fields:
  assumes "mid_range fmt x"
  shows "is_neg fmt (trunc_bits fmt x) = is_neg fmt x"
    and "biased_exponent fmt (trunc_bits fmt x) = biased_exponent fmt x"
    and "get_mantissa fmt (trunc_bits fmt x) =
           get_mantissa fmt x div 2 ^ trim_size_of fmt x * 2 ^ trim_size_of fmt x"
    and "valid fmt (trunc_bits fmt x)"
    and "get_exponent fmt (trunc_bits fmt x) = get_exponent fmt x"
    and "\<not> is_inf_or_nan fmt (trunc_bits fmt x)"
    and "\<not> is_nan fmt (trunc_bits fmt x)"
    and "mid_range fmt (trunc_bits fmt x)"
    and "trim_size_of fmt (trunc_bits fmt x) = trim_size_of fmt x"
proof -
  note cv = trunc_bits_cv [OF assms]
  note f = create_value_fields [OF cv(2) biased_exponent_less]
  show n: "is_neg fmt (trunc_bits fmt x) = is_neg fmt x" unfolding cv(1) by (rule f(3))
  show e: "biased_exponent fmt (trunc_bits fmt x) = biased_exponent fmt x"
    unfolding cv(1) by (rule f(1))
  show "get_mantissa fmt (trunc_bits fmt x) =
           get_mantissa fmt x div 2 ^ trim_size_of fmt x * 2 ^ trim_size_of fmt x"
    unfolding cv(1) by (rule f(2))
  show v: "valid fmt (trunc_bits fmt x)" unfolding cv(1) by (rule f(5))
  show ge: "get_exponent fmt (trunc_bits fmt x) = get_exponent fmt x"
    by (simp add: get_exponent_def e)
  show i: "\<not> is_inf_or_nan fmt (trunc_bits fmt x)"
    using assms by (simp add: is_inf_or_nan_def e mid_range_def)
  then show "\<not> is_nan fmt (trunc_bits fmt x)" by (simp add: is_nan_def)
  show "mid_range fmt (trunc_bits fmt x)"
    using assms v i by (simp add: mid_range_def ge)
  show "trim_size_of fmt (trunc_bits fmt x) = trim_size_of fmt x"
    by (simp add: trim_size_of_def ge)
qed

lemma smag_mid:
  assumes "mid_range fmt x"
  shows "smag fmt (trunc_bits fmt x) = int_part fmt x * unit fmt"
    and "smag fmt x = int_part fmt x * unit fmt
            + (get_mantissa fmt x mod 2 ^ trim_size_of fmt x) * 2 ^ (biased_exponent fmt x - 1)"
    and "(get_mantissa fmt x mod 2 ^ trim_size_of fmt x) * 2 ^ (biased_exponent fmt x - 1) < unit fmt"
    and "unit fmt = 2 ^ trim_size_of fmt x * 2 ^ (biased_exponent fmt x - 1)"
    and "2 ^ nat (get_exponent fmt x) \<le> int_part fmt x"
    and "int_part fmt x < 2 * 2 ^ nat (get_exponent fmt x)"
proof -
  let ?m = "get_mantissa fmt x"
  from assms obtain e t E' where
    ge: "get_exponent fmt x = int e" and
    F: "FRACTION_LEN fmt = e + t" and
    ts: "trim_size_of fmt x = t" and
    bE: "biased_exponent fmt x = Suc E'" and
    u: "unit fmt = 2 ^ t * 2 ^ E'"
    by (rule mid_ctx)
  let ?a = "?m div 2 ^ t"
  have N: "int_part fmt x = 2 ^ e + ?a" by (simp add: int_part_def ge ts)
  have "smag fmt (trunc_bits fmt x) = (2 ^ FRACTION_LEN fmt + ?a * 2 ^ t) * 2 ^ E'"
    by (simp add: smag_def trunc_bits_fields [OF assms] bE ts)
  also have "\<dots> = (2 ^ e + ?a) * (2 ^ t * 2 ^ E')" by (simp add: F power_add algebra_simps)
  finally show "smag fmt (trunc_bits fmt x) = int_part fmt x * unit fmt" by (simp add: N u)
  have "2 ^ e * 2 ^ t + (?a * 2 ^ t + ?m mod 2 ^ t) = 2 ^ FRACTION_LEN fmt + ?m"
    by (simp only: div_mult_mod_eq F power_add)
  then have split: "2 ^ FRACTION_LEN fmt + ?m = (2 ^ e + ?a) * 2 ^ t + ?m mod 2 ^ t"
    by (simp only: distrib_right add.assoc)
  have "smag fmt x = (2 ^ FRACTION_LEN fmt + ?m) * 2 ^ E'" by (simp add: smag_def bE)
  also have "\<dots> = ((2 ^ e + ?a) * 2 ^ t + ?m mod 2 ^ t) * 2 ^ E'"
    by (simp only: split)
  also have "\<dots> = (2 ^ e + ?a) * (2 ^ t * 2 ^ E') + (?m mod 2 ^ t) * 2 ^ E'"
    by (simp only: distrib_right mult.assoc)
  finally show "smag fmt x = int_part fmt x * unit fmt
            + (?m mod 2 ^ trim_size_of fmt x) * 2 ^ (biased_exponent fmt x - 1)"
    by (simp add: N u ts bE)
  show "(?m mod 2 ^ trim_size_of fmt x) * 2 ^ (biased_exponent fmt x - 1) < unit fmt"
    by (simp add: ts bE u)
  show "unit fmt = 2 ^ trim_size_of fmt x * 2 ^ (biased_exponent fmt x - 1)"
    by (simp add: ts bE u)
  show "2 ^ nat (get_exponent fmt x) \<le> int_part fmt x" by (simp add: N ge)
  have "?m < 2 ^ e * 2 ^ t" using get_mantissa_less [of fmt x] by (simp add: F power_add)
  then have "?a < 2 ^ e" by (simp add: less_mult_imp_div_less)
  then show "int_part fmt x < 2 * 2 ^ nat (get_exponent fmt x)" by (simp add: N ge)
qed

lemma away_bits_cv:
  assumes "mid_range fmt x"
  obtains E2 m2 where
    "m2 < 2 ^ FRACTION_LEN fmt"
    "E2 < EXP_MAX fmt"
    "away_bits fmt x = create_value fmt (is_neg fmt x) E2 m2"
    "smag fmt (away_bits fmt x) = (int_part fmt x + 1) * unit fmt"
    "2 ^ trim_size_of fmt x dvd m2"
    "E2 = biased_exponent fmt x \<or> E2 = Suc (biased_exponent fmt x) \<and> m2 = 0"
proof -
  let ?m = "get_mantissa fmt x" and ?s = "is_neg fmt x"
  from assms obtain e t E' where
    ge: "get_exponent fmt x = int e" and
    F: "FRACTION_LEN fmt = e + t" and
    ts: "trim_size_of fmt x = t" and
    bE: "biased_exponent fmt x = Suc E'" and
    u: "unit fmt = 2 ^ t * 2 ^ E'" and
    fin: "Suc (Suc E') < EXP_MAX fmt"
    by (rule mid_ctx)
  let ?a = "?m div 2 ^ t"
  have N: "int_part fmt x = 2 ^ e + ?a" by (simp add: int_part_def ge ts)
  have "?m < 2 ^ e * 2 ^ t" using get_mantissa_less [of fmt x] by (simp add: F power_add)
  then have a: "?a < 2 ^ e" by (simp add: less_mult_imp_div_less)
  have EL: "Suc E' < 2 ^ EXP_LEN fmt" "Suc (Suc E') < 2 ^ EXP_LEN fmt"
    using fin by (simp_all add: EXP_MAX_def)
  have tr: "trunc_bits fmt x = sign_bits fmt ?s + Suc E' * 2 ^ FRACTION_LEN fmt + ?a * 2 ^ t"
    using trunc_bits_cv [OF assms] EL by (simp add: create_value_in_range ts bE)
  have aw: "away_bits fmt x = sign_bits fmt ?s + Suc E' * 2 ^ FRACTION_LEN fmt + (?a + 1) * 2 ^ t"
    by (simp add: away_bits_def tr ts)
  show thesis
  proof (cases "?a + 1 < 2 ^ e")
    case True
    then have "(?a + 1) * 2 ^ t < 2 ^ e * 2 ^ t" by (intro mult_strict_right_mono) auto
    then have m2: "(?a + 1) * 2 ^ t < 2 ^ FRACTION_LEN fmt" by (simp add: F power_add)
    have cv: "away_bits fmt x = create_value fmt ?s (Suc E') ((?a + 1) * 2 ^ t)"
      using m2 EL by (simp only: create_value_in_range aw)
    have "smag fmt (away_bits fmt x) = (2 ^ FRACTION_LEN fmt + (?a + 1) * 2 ^ t) * 2 ^ E'"
      unfolding cv using smag_create_value [OF m2 EL(1)] by simp
    also have "\<dots> = (2 ^ e + ?a + 1) * (2 ^ t * 2 ^ E')"
      by (simp add: F power_add algebra_simps)
    finally have sm: "smag fmt (away_bits fmt x) = (int_part fmt x + 1) * unit fmt"
      by (simp add: N u)
    show ?thesis
    proof (rule that [OF m2 _ cv sm])
      show "Suc E' < EXP_MAX fmt" using fin by simp
      show "2 ^ trim_size_of fmt x dvd (?a + 1) * 2 ^ t" by (simp add: ts)
      show "Suc E' = biased_exponent fmt x \<or>
            Suc E' = Suc (biased_exponent fmt x) \<and> (?a + 1) * 2 ^ t = 0"
        by (simp add: bE)
    qed
  next
    case False
    with a have top: "?a + 1 = 2 ^ e" by simp
    have "(?a + 1) * 2 ^ t = 2 ^ FRACTION_LEN fmt" by (simp only: top F power_add)
    then have aw2: "away_bits fmt x = sign_bits fmt ?s + Suc (Suc E') * 2 ^ FRACTION_LEN fmt + 0"
      by (simp add: aw)
    have z: "(0::nat) < 2 ^ FRACTION_LEN fmt" by simp
    have cv: "away_bits fmt x = create_value fmt ?s (Suc (Suc E')) 0"
      using z EL by (simp only: create_value_in_range aw2)
    have "smag fmt (away_bits fmt x) = 2 ^ FRACTION_LEN fmt * 2 ^ Suc E'"
      unfolding cv using smag_create_value [OF z EL(2)] by simp
    also have "\<dots> = (2 ^ e + 2 ^ e) * (2 ^ t * 2 ^ E')"
      by (simp add: F power_add algebra_simps)
    also have "\<dots> = (2 ^ e + (?a + 1)) * (2 ^ t * 2 ^ E')" by (simp only: top)
    finally have sm: "smag fmt (away_bits fmt x) = (int_part fmt x + 1) * unit fmt"
      by (simp add: N u)
    show ?thesis
    proof (rule that [OF z _ cv sm])
      show "Suc (Suc E') < EXP_MAX fmt" by (rule fin)
      show "2 ^ trim_size_of fmt x dvd (0::nat)" by simp
      show "Suc (Suc E') = biased_exponent fmt x \<or>
            Suc (Suc E') = Suc (biased_exponent fmt x) \<and> (0::nat) = 0"
        by (simp add: bE)
    qed
  qed
qed

lemma bias_less_exp_len: "wf_format fmt \<Longrightarrow> Suc (EXP_BIAS fmt) < 2 ^ EXP_LEN fmt"
  using wf_bias [of fmt] by (simp add: wf_exp_len wf_exp_max)

lemma lit_one_cv: "wf_format fmt \<Longrightarrow> lit_one fmt s = create_value fmt s (EXP_BIAS fmt) 0"
  using bias_less_exp_len [of fmt] by (simp add: lit_one_def create_value_in_range)

lemma lit_two_cv: "wf_format fmt \<Longrightarrow> lit_two fmt s = create_value fmt s (Suc (EXP_BIAS fmt)) 0"
  using bias_less_exp_len [of fmt] by (simp add: lit_two_def create_value_in_range)

lemma lit_zero_cv: "lit_zero fmt s = create_value fmt s 0 0"
  by (simp add: lit_zero_def create_value_def)

lemma FPBits_one_lit: "wf_format fmt \<Longrightarrow> FPBits_one fmt s = lit_one fmt s"
  by (simp add: lit_one_cv FPBits_one_def)

lemma FPBits_zero_lit: "FPBits_zero fmt s = lit_zero fmt s"
  by (simp add: lit_zero_cv FPBits_zero_def)

lemma lit_one_fields:
  assumes "wf_format fmt"
  shows "biased_exponent fmt (lit_one fmt s) = EXP_BIAS fmt"
    and "get_mantissa fmt (lit_one fmt s) = 0"
    and "is_neg fmt (lit_one fmt s) = s"
    and "valid fmt (lit_one fmt s)"
    and "smag fmt (lit_one fmt s) = unit fmt"
    and "\<not> is_inf_or_nan fmt (lit_one fmt s)"
    and "\<not> is_nan fmt (lit_one fmt s)"
    and "get_exponent fmt (lit_one fmt s) = 0"
    and "\<not> is_zero fmt (lit_one fmt s)"
proof -
  have z: "(0::nat) < 2 ^ FRACTION_LEN fmt" by simp
  have b: "EXP_BIAS fmt < 2 ^ EXP_LEN fmt" using bias_less_exp_len [OF assms] by simp
  note f = create_value_fields [OF z b]
  have b3: "3 \<le> EXP_BIAS fmt" using assms by (rule wf_bias)
  show e: "biased_exponent fmt (lit_one fmt s) = EXP_BIAS fmt"
    unfolding lit_one_cv [OF assms] by (rule f(1))
  show "get_mantissa fmt (lit_one fmt s) = 0" unfolding lit_one_cv [OF assms] by (rule f(2))
  show "is_neg fmt (lit_one fmt s) = s" unfolding lit_one_cv [OF assms] by (rule f(3))
  show "valid fmt (lit_one fmt s)" unfolding lit_one_cv [OF assms] by (rule f(5))
  have "FRACTION_LEN fmt + EXP_BIAS fmt - 1 = FRACTION_LEN fmt + (EXP_BIAS fmt - 1)"
    using b3 by simp
  then have u: "unit fmt = 2 ^ FRACTION_LEN fmt * 2 ^ (EXP_BIAS fmt - 1)"
    by (simp only: unit_def power_add)
  have "EXP_BIAS fmt \<noteq> 0" using b3 by simp
  then show "smag fmt (lit_one fmt s) = unit fmt"
    unfolding lit_one_cv [OF assms] u using smag_create_value [OF z b, of s] by simp
  show i: "\<not> is_inf_or_nan fmt (lit_one fmt s)"
    by (simp add: is_inf_or_nan_def e wf_exp_max [OF assms])
  then show "\<not> is_nan fmt (lit_one fmt s)" by (simp add: is_nan_def)
  show "get_exponent fmt (lit_one fmt s) = 0" by (simp add: get_exponent_def e)
  have "create_value fmt s (EXP_BIAS fmt) 0 mod SIGN_MASK fmt \<noteq> 0"
    unfolding f(4) using b3 by simp
  then show "\<not> is_zero fmt (lit_one fmt s)" by (simp add: is_zero_def lit_one_cv [OF assms])
qed

lemma lit_zero_fields:
  assumes "wf_format fmt"
  shows "biased_exponent fmt (lit_zero fmt s) = 0"
    and "get_mantissa fmt (lit_zero fmt s) = 0"
    and "is_neg fmt (lit_zero fmt s) = s"
    and "valid fmt (lit_zero fmt s)"
    and "smag fmt (lit_zero fmt s) = 0"
    and "\<not> is_inf_or_nan fmt (lit_zero fmt s)"
    and "\<not> is_nan fmt (lit_zero fmt s)"
    and "is_zero fmt (lit_zero fmt s)"
    and "sval fmt (lit_zero fmt s) = 0"
proof -
  have z: "(0::nat) < 2 ^ FRACTION_LEN fmt" "(0::nat) < 2 ^ EXP_LEN fmt" by simp_all
  note f = create_value_fields [OF z]
  show e: "biased_exponent fmt (lit_zero fmt s) = 0" unfolding lit_zero_cv by (rule f(1))
  show m: "get_mantissa fmt (lit_zero fmt s) = 0" unfolding lit_zero_cv by (rule f(2))
  show "is_neg fmt (lit_zero fmt s) = s" unfolding lit_zero_cv by (rule f(3))
  show "valid fmt (lit_zero fmt s)" unfolding lit_zero_cv by (rule f(5))
  show sm: "smag fmt (lit_zero fmt s) = 0" by (simp add: smag_def e m)
  have "EXP_MAX fmt \<noteq> 0" by (simp add: wf_exp_max [OF assms])
  then show i: "\<not> is_inf_or_nan fmt (lit_zero fmt s)" by (simp add: is_inf_or_nan_def e)
  then show "\<not> is_nan fmt (lit_zero fmt s)" by (simp add: is_nan_def)
  show "is_zero fmt (lit_zero fmt s)" using f(4) [of s] by (simp add: is_zero_def lit_zero_cv)
  show "sval fmt (lit_zero fmt s) = 0" by (simp add: sval_def sm)
qed

lemma sval_pos: "\<not> is_neg fmt x \<Longrightarrow> sval fmt x = int (smag fmt x)"
  by (simp add: sval_def)

lemma sval_neg: "is_neg fmt x \<Longrightarrow> sval fmt x = - int (smag fmt x)"
  by (simp add: sval_def)

lemma fneg_lit_one: "wf_format fmt \<Longrightarrow> fneg fmt (lit_one fmt False) = lit_one fmt True"
  by (simp add: fneg_def lit_one_fields) (simp add: lit_one_def sign_bits_def)

lemma fadd_away:
  assumes "mid_range fmt x" "\<not> is_neg fmt x"
  shows "fadd fmt rm (trunc_bits fmt x) (lit_one fmt False) = away_bits fmt x"
proof -
  from assms(1) have wf: "wf_format fmt" by (simp add: mid_range_def)
  note tf = trunc_bits_fields [OF assms(1)]
  note lf = lit_one_fields [OF wf]
  from assms(1) obtain E2 m2 where
    m2: "m2 < 2 ^ FRACTION_LEN fmt" and E2: "E2 < EXP_MAX fmt" and
    cv: "away_bits fmt x = create_value fmt (is_neg fmt x) E2 m2" and
    sm: "smag fmt (away_bits fmt x) = (int_part fmt x + 1) * unit fmt"
    by (rule away_bits_cv)
  have EL: "E2 < 2 ^ EXP_LEN fmt" using E2 by (simp add: EXP_MAX_def)
  let ?s = "sval fmt (trunc_bits fmt x) + sval fmt (lit_one fmt False)"
  have s: "?s = int ((int_part fmt x + 1) * unit fmt)"
    using assms(2) by (simp add: sval_pos tf lf smag_mid(1) [OF assms(1)])
  have up: "0 < unit fmt" by (simp add: unit_def)
  have s0: "?s \<noteq> 0" "\<not> ?s < 0" using up by (simp_all add: s del: of_nat_mult of_nat_add)
  have n: "nat \<bar>?s\<bar> = smag fmt (create_value fmt (is_neg fmt x) E2 m2)"
    unfolding cv [symmetric] sm s by (simp only: abs_minus_cancel abs_of_nat nat_int)
  have "fadd fmt rm (trunc_bits fmt x) (lit_one fmt False) =
      sign_bits fmt False + round_scaled fmt rm False (nat \<bar>?s\<bar>)"
    using s0 by (simp add: fadd_def tf lf Let_def)
  also have "\<dots> = E2 * 2 ^ FRACTION_LEN fmt + m2"
    unfolding n round_scaled_exact [OF m2 E2] by (simp add: sign_bits_def)
  also have "\<dots> = away_bits fmt x"
    using assms(2) by (simp add: cv create_value_in_range [OF m2 EL] sign_bits_def)
  finally show ?thesis .
qed

lemma fsub_away:
  assumes "mid_range fmt x" "is_neg fmt x"
  shows "fsub fmt rm (trunc_bits fmt x) (lit_one fmt False) = away_bits fmt x"
proof -
  from assms(1) have wf: "wf_format fmt" by (simp add: mid_range_def)
  note tf = trunc_bits_fields [OF assms(1)]
  note lf = lit_one_fields [OF wf]
  from assms(1) obtain E2 m2 where
    m2: "m2 < 2 ^ FRACTION_LEN fmt" and E2: "E2 < EXP_MAX fmt" and
    cv: "away_bits fmt x = create_value fmt (is_neg fmt x) E2 m2" and
    sm: "smag fmt (away_bits fmt x) = (int_part fmt x + 1) * unit fmt"
    by (rule away_bits_cv)
  have EL: "E2 < 2 ^ EXP_LEN fmt" using E2 by (simp add: EXP_MAX_def)
  let ?s = "sval fmt (trunc_bits fmt x) + sval fmt (lit_one fmt True)"
  have s: "?s = - int ((int_part fmt x + 1) * unit fmt)"
    using assms(2) by (simp add: sval_neg tf lf smag_mid(1) [OF assms(1)])
  have up: "0 < unit fmt" by (simp add: unit_def)
  have s0: "?s \<noteq> 0" "?s < 0" using up by (simp_all add: s del: of_nat_mult of_nat_add)
  have n: "nat \<bar>?s\<bar> = smag fmt (create_value fmt (is_neg fmt x) E2 m2)"
    unfolding cv [symmetric] sm s by (simp only: abs_minus_cancel abs_of_nat nat_int)
  have "fsub fmt rm (trunc_bits fmt x) (lit_one fmt False) =
      sign_bits fmt True + round_scaled fmt rm True (nat \<bar>?s\<bar>)"
    using s0 by (simp add: fsub_def fneg_lit_one [OF wf] fadd_def tf lf Let_def)
  also have "\<dots> = sign_bits fmt True + (E2 * 2 ^ FRACTION_LEN fmt + m2)"
    unfolding n round_scaled_exact [OF m2 E2] by (rule refl)
  also have "\<dots> = away_bits fmt x"
    using assms(2) by (simp add: cv create_value_in_range [OF m2 EL])
  finally show ?thesis .
qed

lemma valid_uintval: "valid fmt x \<Longrightarrow> uintval fmt x = x"
  by (simp add: valid_def uintval_def)

lemma valid_set_uintval: "valid fmt x \<Longrightarrow> set_uintval fmt x = x"
  by (simp add: valid_def set_uintval_def)

lemma is_zero_iff:
  assumes "valid fmt x"
  shows "is_zero fmt x \<longleftrightarrow> biased_exponent fmt x = 0 \<and> get_mantissa fmt x = 0"
proof -
  have "create_value fmt (is_neg fmt x) (biased_exponent fmt x) (get_mantissa fmt x)
      mod SIGN_MASK fmt = biased_exponent fmt x * 2 ^ FRACTION_LEN fmt + get_mantissa fmt x"
    by (rule create_value_fields(4) [OF get_mantissa_less biased_exponent_less])
  then have "x mod SIGN_MASK fmt = biased_exponent fmt x * 2 ^ FRACTION_LEN fmt + get_mantissa fmt x"
    by (simp only: valid_create_value [OF assms, symmetric])
  then show ?thesis by (simp add: is_zero_def)
qed

lemma mid_not_zero: "mid_range fmt x \<Longrightarrow> \<not> is_zero fmt x"
proof -
  assume m: "mid_range fmt x"
  then have v: "valid fmt x" by (simp add: mid_range_def)
  from m obtain E' where "biased_exponent fmt x = Suc E'" by (rule mid_ctx)
  then show ?thesis by (simp add: is_zero_iff [OF v])
qed

lemma trunc_u_eq:
  assumes "mid_range fmt x"
  shows "((uintval fmt x div 2 ^ trim_size_of fmt x) * 2 ^ trim_size_of fmt x) mod 2 ^ TOTAL_LEN fmt
           = trunc_bits fmt x"
proof -
  from assms have v: "valid fmt x" by (simp add: mid_range_def)
  have "x div 2 ^ trim_size_of fmt x * 2 ^ trim_size_of fmt x = trunc_bits fmt x"
    by (simp add: trunc_bits_def minus_mod_eq_div_mult)
  moreover have "trunc_bits fmt x < 2 ^ TOTAL_LEN fmt"
    using trunc_bits_fields(4) [OF assms] by (simp add: valid_def)
  ultimately show ?thesis by (simp add: valid_uintval [OF v])
qed

lemma trunc_mid:
  assumes "mid_range fmt x"
  shows "trunc fmt x = trunc_bits fmt x"
proof -
  let ?m = "get_mantissa fmt x" and ?t = "trim_size_of fmt x"
  from assms have v: "valid fmt x" and fin: "\<not> is_inf_or_nan fmt x"
    and e0: "0 \<le> get_exponent fmt x" and eF: "get_exponent fmt x < int (FRACTION_LEN fmt)"
    by (simp_all add: mid_range_def)
  note cv = trunc_bits_cv [OF assms]
  have lt: "?m div 2 ^ ?t * 2 ^ ?t < 2 ^ TOTAL_LEN fmt"
  proof -
    have "(2::nat) ^ FRACTION_LEN fmt \<le> 2 ^ TOTAL_LEN fmt"
      by (rule power_increasing) (simp_all add: TOTAL_LEN_def)
    with cv(2) show ?thesis by (rule less_le_trans)
  qed
  have hi: "x div 2 ^ FRACTION_LEN fmt * 2 ^ FRACTION_LEN fmt
      = sign_bits fmt (is_neg fmt x) + biased_exponent fmt x * 2 ^ FRACTION_LEN fmt"
  proof -
    have "x = sign_bits fmt (is_neg fmt x) + biased_exponent fmt x * 2 ^ FRACTION_LEN fmt + ?m"
      using valid_create_value [OF v]
      by (simp add: create_value_in_range get_mantissa_less biased_exponent_less)
    moreover have "x = x div 2 ^ FRACTION_LEN fmt * 2 ^ FRACTION_LEN fmt + ?m"
      unfolding get_mantissa_def by (rule div_mult_mod_eq [symmetric])
    ultimately show ?thesis by linarith
  qed
  have "trunc fmt x = set_mantissa fmt x (?m div 2 ^ ?t * 2 ^ ?t)"
    using fin e0 eF lt by (simp add: trunc_def Let_def trim_size_of_def [symmetric])
  also have "\<dots> = sign_bits fmt (is_neg fmt x) + biased_exponent fmt x * 2 ^ FRACTION_LEN fmt
       + ?m div 2 ^ ?t * 2 ^ ?t"
    using cv(2) by (simp add: set_mantissa_def hi)
  also have "\<dots> = trunc_bits fmt x"
    by (simp add: cv create_value_in_range biased_exponent_less)
  finally show ?thesis .
qed

lemma trunc_u_eq2:
  assumes "mid_range fmt x"
  shows "(x div 2 ^ trim_size_of fmt x * 2 ^ trim_size_of fmt x) mod 2 ^ TOTAL_LEN fmt
           = trunc_bits fmt x"
  using trunc_u_eq [OF assms] assms by (simp add: valid_uintval mid_range_def)

lemma ceil_mid:
  assumes "mid_range fmt x"
  shows "ceil fmt rm x =
    (if trunc_bits fmt x = x then x
     else if is_neg fmt x then trunc_bits fmt x else away_bits fmt x)"
proof -
  from assms have v: "valid fmt x" and fin: "\<not> is_inf_or_nan fmt x"
    and e0: "0 \<le> get_exponent fmt x" and eF: "get_exponent fmt x < int (FRACTION_LEN fmt)"
    by (simp_all add: mid_range_def)
  note tf = trunc_bits_fields [OF assms]
  show ?thesis
    using fin e0 eF mid_not_zero [OF assms]
    by (simp add: ceil_def Let_def trim_size_of_def [symmetric] trunc_u_eq2 [OF assms]
        valid_uintval [OF v] valid_set_uintval [OF tf(4)] fadd_away [OF assms]
        split del: if_split cong: if_cong)
qed

lemma round_mid:
  assumes "mid_range fmt x"
  shows "round_fp fmt rm x =
    (if trunc_bits fmt x = x then x
     else if (get_mantissa fmt x div 2 ^ (trim_size_of fmt x - 1)) mod 2 \<noteq> 0
          then away_bits fmt x else trunc_bits fmt x)"
proof -
  from assms have v: "valid fmt x" and fin: "\<not> is_inf_or_nan fmt x"
    and e0: "0 \<le> get_exponent fmt x" and eF: "get_exponent fmt x < int (FRACTION_LEN fmt)"
    by (simp_all add: mid_range_def)
  note tf = trunc_bits_fields [OF assms]
  have aw: "(if is_neg fmt x then fsub fmt rm (trunc_bits fmt x) (lit_one fmt False)
             else fadd fmt rm (trunc_bits fmt x) (lit_one fmt False)) = away_bits fmt x"
    using fadd_away [OF assms, of rm] fsub_away [OF assms, of rm] by simp
  have e1: "get_exponent fmt x \<noteq> -1" "\<not> get_exponent fmt x \<le> -2" using e0 by simp_all
  show ?thesis
    using fin e1 eF mid_not_zero [OF assms]
    by (simp add: round_fp_def Let_def trim_size_of_def [symmetric] trunc_u_eq2 [OF assms]
        valid_uintval [OF v] valid_set_uintval [OF tf(4)] tf(1) aw
        split del: if_split cong: if_cong) auto
qed

lemma rusrm_mid:
  assumes "mid_range fmt x"
  shows "round_using_specific_rounding_mode fmt rm x rnd =
    (if trunc_bits fmt x = x then x
     else if rnd = FP_INT_DOWNWARD then (if is_neg fmt x then away_bits fmt x else trunc_bits fmt x)
     else if rnd = FP_INT_UPWARD then (if is_neg fmt x then trunc_bits fmt x else away_bits fmt x)
     else if rnd = FP_INT_TOWARDZERO then trunc_bits fmt x
     else if rnd = FP_INT_TONEARESTFROMZERO then
       (if get_mantissa fmt x mod 2 ^ trim_size_of fmt x \<ge> 2 ^ (trim_size_of fmt x - 1)
        then away_bits fmt x else trunc_bits fmt x)
     else
       (if get_mantissa fmt x mod 2 ^ trim_size_of fmt x > 2 ^ (trim_size_of fmt x - 1)
        then away_bits fmt x
        else if get_mantissa fmt x mod 2 ^ trim_size_of fmt x = 2 ^ (trim_size_of fmt x - 1) then
          (if get_exponent fmt x = 0 then lit_two fmt (is_neg fmt x)
           else if odd (get_mantissa fmt x div 2 ^ trim_size_of fmt x)
                then away_bits fmt x else trunc_bits fmt x)
        else trunc_bits fmt x))"
proof -
  let ?t = "trim_size_of fmt x"
  from assms have v: "valid fmt x" and fin: "\<not> is_inf_or_nan fmt x"
    and e0: "0 \<le> get_exponent fmt x" and eF: "get_exponent fmt x < int (FRACTION_LEN fmt)"
    by (simp_all add: mid_range_def)
  note tf = trunc_bits_fields [OF assms]
  have aw: "(if is_neg fmt x then fsub fmt rm (trunc_bits fmt x) (lit_one fmt False)
             else fadd fmt rm (trunc_bits fmt x) (lit_one fmt False)) = away_bits fmt x"
    using fadd_away [OF assms, of rm] fsub_away [OF assms, of rm] by simp
  have e1: "\<not> get_exponent fmt x \<le> -1" using e0 by simp
  have half: "(2::nat) ^ (?t - Suc 0) mod 2 ^ TOTAL_LEN fmt = 2 ^ (?t - Suc 0)"
  proof -
    have "?t \<le> FRACTION_LEN fmt" using e0 by (simp add: trim_size_of_def)
    then have "?t - 1 < TOTAL_LEN fmt" by (simp add: TOTAL_LEN_def)
    then have "(2::nat) ^ (?t - 1) < 2 ^ TOTAL_LEN fmt" by (rule power_strict_increasing) simp
    then show ?thesis by simp
  qed
  have odd: "((get_mantissa fmt (trunc_bits fmt x) div 2 ^ ?t) mod 2 = Suc 0)
     = odd (get_mantissa fmt x div 2 ^ ?t)"
    by (simp add: tf(3) odd_iff_mod_2_eq_one)
  show ?thesis
    using fin e1 eF mid_not_zero [OF assms]
    by (simp add: round_using_specific_rounding_mode_def Let_def trim_size_of_def [symmetric]
        trunc_u_eq2 [OF assms] valid_uintval [OF v] aw half odd
        fadd_away [OF assms] fsub_away [OF assms]
        split del: if_split cong: if_cong)
qed

lemma unit_pos: "0 < unit fmt"
  by (simp add: unit_def)

lemma fval_abs: "\<bar>fval fmt x\<bar> = of_nat (smag fmt x) / of_nat (unit fmt)"
  by (simp add: fval_def sval_def)

lemma fval_abs_less_one: "\<bar>fval fmt x\<bar> < 1 \<longleftrightarrow> smag fmt x < unit fmt"
  using unit_pos [of fmt] by (simp add: fval_abs)

lemma fval_abs_pos: "0 < \<bar>fval fmt x\<bar> \<longleftrightarrow> 0 < smag fmt x"
  using unit_pos [of fmt] by (simp add: fval_abs zero_less_divide_iff)

lemma fval_lit_one: "wf_format fmt \<Longrightarrow> fval fmt (lit_one fmt s) = (if s then -1 else 1)"
  using unit_pos [of fmt] by (simp add: fval_def sval_def lit_one_fields)

lemma fval_lit_zero: "wf_format fmt \<Longrightarrow> fval fmt (lit_zero fmt s) = 0"
  by (simp add: fval_def lit_zero_fields)

lemma smag_low:
  assumes "wf_format fmt" "get_exponent fmt x \<le> -1"
  shows "smag fmt x < unit fmt"
proof (cases "biased_exponent fmt x = 0")
  case True
  have b3: "3 \<le> EXP_BIAS fmt" using assms(1) by (rule wf_bias)
  have "smag fmt x < 2 ^ FRACTION_LEN fmt" using True by (simp add: smag_def get_mantissa_less)
  also have "\<dots> \<le> unit fmt" unfolding unit_def by (rule power_increasing) (use b3 in simp_all)
  finally show ?thesis .
next
  case False
  then obtain E' where E: "biased_exponent fmt x = Suc E'" by (cases "biased_exponent fmt x") auto
  have le: "Suc E' < EXP_BIAS fmt" using assms(2) by (simp add: get_exponent_def E)
  have "smag fmt x = (2 ^ FRACTION_LEN fmt + get_mantissa fmt x) * 2 ^ E'"
    by (simp add: smag_def E)
  also have "\<dots> < (2 ^ FRACTION_LEN fmt + 2 ^ FRACTION_LEN fmt) * 2 ^ E'"
    using get_mantissa_less [of fmt x] by simp
  also have "\<dots> = 2 ^ (FRACTION_LEN fmt + Suc E')" by (simp add: power_add)
  also have "\<dots> \<le> unit fmt" unfolding unit_def by (rule power_increasing) (use le in simp_all)
  finally show ?thesis .
qed

lemma smag_nonzero:
  assumes "valid fmt x" "\<not> is_zero fmt x"
  shows "0 < smag fmt x"
  using assms by (auto simp: is_zero_iff smag_def)

section \<open>Unfolding the model on numerals\<close>

lemmas fmt_defs = binary32_def binary16_def binary64_def TOTAL_LEN_def EXP_BIAS_def SIGN_MASK_def
  FRACTION_MASK_def SIG_MASK_def EXP_MAX_def valid_def wf_format_def
lemmas bits_defs = biased_exponent_def get_exponent_def get_mantissa_def is_neg_def is_pos_def
  is_inf_or_nan_def is_nan_def is_zero_def uintval_def set_uintval_def set_mantissa_def
  sign_bits_def create_value_def FPBits_zero_def FPBits_one_def quiet_nan_def
lemmas arith_defs = smag_def sval_def unit_def fval_def round_incr_def round_overflow_def
  round_scaled_def fneg_def fadd_def fsub_def flt_def fgt_def fne_def lit_zero_def lit_one_def
  lit_two_def bit_len.simps
lemmas mode_defs = FP_INT_UPWARD_def FP_INT_DOWNWARD_def FP_INT_TOWARDZERO_def
  FP_INT_TONEARESTFROMZERO_def FP_INT_TONEAREST_def
lemmas env_defs = raise_except_if_required_def set_errno_if_required_def invalid_nan_def
  EXPLICIT_BIT_def set_domain_error_and_raise_invalid_def EDOM_def INTEGER_MIN_def
  INTEGER_MAX_def static_cast_int_def quick_get_round_def
lemmas eval_defs = fmt_defs bits_defs arith_defs mode_defs env_defs Let_def

section \<open>The default branch of the mode switch\<close>

text \<open>
  Claim C10. A mode value that is none of the five selectors takes the default branch of
  both switches of \<open>round_using_specific_rounding_mode\<close>, which is the branch of
  \<open>FP_INT_TONEAREST\<close>: the result is the same as with \<open>FP_INT_TONEAREST\<close>, for
  every pattern \<open>x\<close>.
\<close>

theorem unrecognized_mode_is_to_nearest:
  assumes "rnd \<noteq> FP_INT_UPWARD" "rnd \<noteq> FP_INT_DOWNWARD" "rnd \<noteq> FP_INT_TOWARDZERO"
    "rnd \<noteq> FP_INT_TONEARESTFROMZERO" "rnd \<noteq> FP_INT_TONEAREST"
  shows "round_using_specific_rounding_mode fmt rm x rnd =
         round_using_specific_rounding_mode fmt rm x FP_INT_TONEAREST"
  using assms by (simp add: round_using_specific_rounding_mode_def mode_defs Let_def)

theorem unrecognized_mode_is_to_nearest_witness:
  "(7::int) \<noteq> FP_INT_UPWARD \<and> 7 \<noteq> FP_INT_DOWNWARD \<and> 7 \<noteq> FP_INT_TOWARDZERO \<and>
   7 \<noteq> FP_INT_TONEARESTFROMZERO \<and> 7 \<noteq> FP_INT_TONEAREST \<and>
   round_using_specific_rounding_mode binary32 FE_TONEAREST 0x40200000 7 =
     round_using_specific_rounding_mode binary32 FE_TONEAREST 0x40200000 FP_INT_TONEAREST \<and>
   round_using_specific_rounding_mode binary32 FE_TONEAREST 0x40200000 7 = 0x40000000"
proof -
  have h: "(7::int) \<noteq> FP_INT_UPWARD" "(7::int) \<noteq> FP_INT_DOWNWARD"
    "(7::int) \<noteq> FP_INT_TOWARDZERO" "(7::int) \<noteq> FP_INT_TONEARESTFROMZERO"
    "(7::int) \<noteq> FP_INT_TONEAREST"
    by (simp_all add: mode_defs)
  have e: "round_using_specific_rounding_mode binary32 FE_TONEAREST 0x40200000 FP_INT_TONEAREST
      = 0x40000000"
    by (simp add: round_using_specific_rounding_mode_def eval_defs)
  from unrecognized_mode_is_to_nearest [OF h, of binary32 FE_TONEAREST "0x40200000"] h e
  show ?thesis by simp
qed

section \<open>The ceiling of a value below one\<close>

text \<open>
  Claim C4. For a finite nonzero \<open>x\<close> whose unbiased exponent is at most \<open>-1\<close>, that
  is \<open>0 < |x| < 1\<close>, \<open>ceil\<close> returns \<open>1.0\<close> when \<open>x\<close> is positive and the zero
  with the sign bit set when \<open>x\<close> is negative. At \<open>-0.5\<close> and \<open>0.5\<close> in binary32 the
  results are the patterns of \<open>-0.0\<close> and \<open>1.0\<close>.
\<close>

theorem ceil_below_one:
  assumes "wf_format fmt" "valid fmt x" "\<not> is_inf_or_nan fmt x" "\<not> is_zero fmt x"
    "get_exponent fmt x \<le> -1"
  shows "0 < \<bar>fval fmt x\<bar> \<and> \<bar>fval fmt x\<bar> < 1 \<and>
    (if is_neg fmt x
     then ceil fmt rm x = lit_zero fmt True \<and> is_neg fmt (ceil fmt rm x) \<and>
          is_zero fmt (ceil fmt rm x)
     else ceil fmt rm x = lit_one fmt False \<and> fval fmt (ceil fmt rm x) = 1)"
proof -
  have F: "\<not> int (FRACTION_LEN fmt) \<le> get_exponent fmt x" using assms(5) by simp
  have c: "ceil fmt rm x = (if is_neg fmt x then lit_zero fmt True else lit_one fmt False)"
    using assms(3,4,5) F by (simp add: ceil_def Let_def)
  have "0 < \<bar>fval fmt x\<bar>"
    unfolding fval_abs_pos using assms(2,4) by (rule smag_nonzero)
  moreover have "\<bar>fval fmt x\<bar> < 1"
    unfolding fval_abs_less_one using assms(1,5) by (rule smag_low)
  ultimately show ?thesis
    using assms(1) by (simp add: c lit_zero_fields fval_lit_one)
qed

theorem ceil_below_one_witness:
  "wf_format binary32 \<and> valid binary32 0xBF000000 \<and> valid binary32 0x3F000000 \<and>
   \<not> is_inf_or_nan binary32 0xBF000000 \<and> \<not> is_zero binary32 0xBF000000 \<and>
   get_exponent binary32 0xBF000000 \<le> -1 \<and> is_neg binary32 0xBF000000 \<and>
   fval binary32 0xBF000000 = - (1 / 2) \<and>
   ceil binary32 FE_UPWARD 0xBF000000 = 0x80000000 \<and>
   is_neg binary32 (ceil binary32 FE_UPWARD 0xBF000000) \<and>
   \<not> is_inf_or_nan binary32 0x3F000000 \<and> \<not> is_zero binary32 0x3F000000 \<and>
   get_exponent binary32 0x3F000000 \<le> -1 \<and> \<not> is_neg binary32 0x3F000000 \<and>
   fval binary32 0x3F000000 = 1 / 2 \<and>
   ceil binary32 FE_UPWARD 0x3F000000 = 0x3F800000 \<and>
   fval binary32 (ceil binary32 FE_UPWARD 0x3F000000) = 1"
proof -
  have wf: "wf_format binary32" by (simp add: fmt_defs)
  have n: "valid binary32 0xBF000000" "\<not> is_inf_or_nan binary32 0xBF000000"
    "\<not> is_zero binary32 0xBF000000" "get_exponent binary32 0xBF000000 \<le> -1"
    by (simp_all add: eval_defs)
  have p: "valid binary32 0x3F000000" "\<not> is_inf_or_nan binary32 0x3F000000"
    "\<not> is_zero binary32 0x3F000000" "get_exponent binary32 0x3F000000 \<le> -1"
    by (simp_all add: eval_defs)
  have s: "is_neg binary32 0xBF000000" "\<not> is_neg binary32 0x3F000000"
    by (simp_all add: eval_defs)
  have v: "fval binary32 0xBF000000 = - (1 / 2)" "fval binary32 0x3F000000 = 1 / 2"
    by (simp_all add: eval_defs)
  have l: "lit_zero binary32 True = 0x80000000" "lit_one binary32 False = 0x3F800000"
    by (simp_all add: eval_defs)
  from ceil_below_one [OF wf n, of FE_UPWARD] ceil_below_one [OF wf p, of FE_UPWARD] wf n p s v l
  show ?thesis by (simp add: eval_defs)
qed

lemma range_cases:
  assumes "wf_format fmt" "valid fmt x" "\<not> is_inf_or_nan fmt x"
  obtains (high) "int (FRACTION_LEN fmt) \<le> get_exponent fmt x"
    | (low) "get_exponent fmt x \<le> -1"
    | (mid) "mid_range fmt x"
proof -
  consider "int (FRACTION_LEN fmt) \<le> get_exponent fmt x" | "get_exponent fmt x \<le> -1"
    | "0 \<le> get_exponent fmt x \<and> get_exponent fmt x < int (FRACTION_LEN fmt)"
    by linarith
  then show thesis
  proof cases
    case 1
    then show ?thesis by (rule high)
  next
    case 2
    then show ?thesis by (rule low)
  next
    case 3
    then have "mid_range fmt x" using assms by (simp add: mid_range_def)
    then show ?thesis by (rule mid)
  qed
qed

lemma fval_diff: "fval fmt x - fval fmt y = of_int (sval fmt x - sval fmt y) / of_nat (unit fmt)"
  by (simp add: fval_def diff_divide_distrib)

lemma abs_fval_diff:
  "\<bar>fval fmt x - fval fmt y\<bar> = of_int \<bar>sval fmt x - sval fmt y\<bar> / of_nat (unit fmt)"
  unfolding fval_diff by (simp del: of_int_diff)

lemma abs_fval_diff_less_one:
  "\<bar>fval fmt x - fval fmt y\<bar> < 1 \<longleftrightarrow> \<bar>sval fmt x - sval fmt y\<bar> < int (unit fmt)"
proof -
  have "(of_int \<bar>sval fmt x - sval fmt y\<bar> :: rat) < of_int (int (unit fmt))
      \<longleftrightarrow> \<bar>sval fmt x - sval fmt y\<bar> < int (unit fmt)"
    by (rule of_int_less_iff)
  then show ?thesis
    unfolding abs_fval_diff using unit_pos [of fmt] by (simp add: divide_less_eq)
qed

lemma abs_fval_le:
  "\<bar>fval fmt y\<bar> \<le> \<bar>fval fmt x\<bar> \<longleftrightarrow> smag fmt y \<le> smag fmt x"
  unfolding fval_abs using unit_pos [of fmt] by (simp add: divide_le_cancel)

lemma sval_diff_same_sign:
  assumes "is_neg fmt y = is_neg fmt x" "smag fmt y \<le> smag fmt x"
  shows "\<bar>sval fmt x - sval fmt y\<bar> = int (smag fmt x - smag fmt y)"
  using assms by (simp add: sval_def of_nat_diff)

lemma trunc_high: "\<not> is_inf_or_nan fmt x \<Longrightarrow> int (FRACTION_LEN fmt) \<le> get_exponent fmt x \<Longrightarrow>
    trunc fmt x = x"
  by (simp add: trunc_def Let_def)

lemma trunc_low: "\<not> is_inf_or_nan fmt x \<Longrightarrow> get_exponent fmt x \<le> -1 \<Longrightarrow>
    trunc fmt x = lit_zero fmt (is_neg fmt x)"
  by (simp add: trunc_def Let_def FPBits_zero_lit)

lemma smag_ge_unit:
  assumes "wf_format fmt" "0 \<le> get_exponent fmt x"
  shows "unit fmt \<le> smag fmt x"
proof -
  have b3: "3 \<le> EXP_BIAS fmt" using assms(1) by (rule wf_bias)
  have E: "EXP_BIAS fmt \<le> biased_exponent fmt x" using assms(2) by (simp add: get_exponent_def)
  then have E0: "biased_exponent fmt x \<noteq> 0" using b3 by simp
  have "FRACTION_LEN fmt + EXP_BIAS fmt - 1 \<le> FRACTION_LEN fmt + (biased_exponent fmt x - 1)"
    using E b3 by simp
  then have "unit fmt \<le> 2 ^ (FRACTION_LEN fmt + (biased_exponent fmt x - 1))"
    unfolding unit_def by (rule power_increasing) simp
  also have "\<dots> = 2 ^ FRACTION_LEN fmt * 2 ^ (biased_exponent fmt x - 1)"
    by (simp only: power_add)
  also have "\<dots> \<le> (2 ^ FRACTION_LEN fmt + get_mantissa fmt x) * 2 ^ (biased_exponent fmt x - 1)"
    by (rule mult_right_mono) simp_all
  also have "\<dots> = smag fmt x" using E0 by (simp add: smag_def)
  finally show ?thesis .
qed

lemma fval_abs_less_one_iff_exponent:
  assumes "wf_format fmt"
  shows "\<bar>fval fmt x\<bar> < 1 \<longleftrightarrow> get_exponent fmt x \<le> -1"
proof
  assume "\<bar>fval fmt x\<bar> < 1"
  then have "smag fmt x < unit fmt" by (simp add: fval_abs_less_one)
  then have "\<not> 0 \<le> get_exponent fmt x" using smag_ge_unit [OF assms, of x] by auto
  then show "get_exponent fmt x \<le> -1" by simp
next
  assume "get_exponent fmt x \<le> -1"
  then show "\<bar>fval fmt x\<bar> < 1"
    unfolding fval_abs_less_one using assms by (intro smag_low)
qed

section \<open>Truncation\<close>

text \<open>
  Claim C7. For every finite \<open>x\<close>, \<open>trunc x\<close> has the sign bit of \<open>x\<close> (and is the
  zero of that sign when \<open>|x| < 1\<close>), its magnitude does not exceed that of \<open>x\<close>, the
  discarded difference \<open>x - trunc x\<close> has magnitude below \<open>1\<close>, and an \<open>x\<close> whose
  exponent is at least \<open>FRACTION_LEN\<close> is returned unchanged.
\<close>

theorem trunc_sign_and_magnitude:
  assumes "wf_format fmt" "valid fmt x" "\<not> is_inf_or_nan fmt x"
  shows "is_neg fmt (trunc fmt x) = is_neg fmt x \<and>
    (\<bar>fval fmt x\<bar> < 1 \<longrightarrow> trunc fmt x = lit_zero fmt (is_neg fmt x) \<and> is_zero fmt (trunc fmt x)) \<and>
    \<bar>fval fmt (trunc fmt x)\<bar> \<le> \<bar>fval fmt x\<bar> \<and>
    \<bar>fval fmt x - fval fmt (trunc fmt x)\<bar> < 1 \<and>
    (int (FRACTION_LEN fmt) \<le> get_exponent fmt x \<longrightarrow> trunc fmt x = x)"
  using assms
proof (cases rule: range_cases)
  case high
  have t: "trunc fmt x = x" using assms(3) high by (rule trunc_high)
  have "\<not> get_exponent fmt x \<le> -1" using high by simp
  then have "\<not> \<bar>fval fmt x\<bar> < 1" by (simp add: fval_abs_less_one_iff_exponent [OF assms(1)])
  then show ?thesis by (simp add: t)
next
  case low
  have t: "trunc fmt x = lit_zero fmt (is_neg fmt x)" using assms(3) low by (rule trunc_low)
  have "\<bar>fval fmt x\<bar> < 1" using low by (simp add: fval_abs_less_one_iff_exponent [OF assms(1)])
  then show ?thesis
    using low by (simp add: t lit_zero_fields [OF assms(1)] fval_lit_zero [OF assms(1)])
next
  case mid
  have t: "trunc fmt x = trunc_bits fmt x" using mid by (rule trunc_mid)
  note tf = trunc_bits_fields [OF mid]
  note sm = smag_mid [OF mid]
  have le: "smag fmt (trunc_bits fmt x) \<le> smag fmt x" by (simp add: sm(1,2))
  have "\<bar>sval fmt x - sval fmt (trunc_bits fmt x)\<bar>
      = int (smag fmt x - smag fmt (trunc_bits fmt x))"
    using tf(1) le by (rule sval_diff_same_sign)
  also have "\<dots> < int (unit fmt)"
  proof -
    have "smag fmt x - smag fmt (trunc_bits fmt x) < unit fmt" using sm(3) by (simp add: sm(1,2))
    then show ?thesis by (simp only: of_nat_less_iff)
  qed
  finally have d: "\<bar>fval fmt x - fval fmt (trunc_bits fmt x)\<bar> < 1"
    by (simp add: abs_fval_diff_less_one)
  have "\<not> get_exponent fmt x \<le> -1" "\<not> int (FRACTION_LEN fmt) \<le> get_exponent fmt x"
    using mid by (simp_all add: mid_range_def)
  then have "\<not> \<bar>fval fmt x\<bar> < 1" "\<not> int (FRACTION_LEN fmt) \<le> get_exponent fmt x"
    by (simp_all add: fval_abs_less_one_iff_exponent [OF assms(1)])
  then show ?thesis using d le by (simp add: t tf(1) abs_fval_le)
qed

theorem trunc_sign_and_magnitude_witness:
  "wf_format binary32 \<and> valid binary32 0xC0200000 \<and> \<not> is_inf_or_nan binary32 0xC0200000 \<and>
   fval binary32 0xC0200000 = - (5 / 2) \<and>
   trunc binary32 0xC0200000 = 0xC0000000 \<and>
   fval binary32 0xC0000000 = - 2 \<and>
   is_neg binary32 (trunc binary32 0xC0200000) = is_neg binary32 0xC0200000 \<and>
   \<bar>fval binary32 (trunc binary32 0xC0200000)\<bar> \<le> \<bar>fval binary32 0xC0200000\<bar> \<and>
   \<bar>fval binary32 0xC0200000 - fval binary32 (trunc binary32 0xC0200000)\<bar> < 1"
proof -
  have wf: "wf_format binary32" by (simp add: fmt_defs)
  have a: "valid binary32 0xC0200000" "\<not> is_inf_or_nan binary32 0xC0200000"
    by (simp_all add: eval_defs)
  have v: "fval binary32 0xC0200000 = - (5 / 2)" "fval binary32 0xC0000000 = - 2"
    by (simp_all add: eval_defs)
  have t: "trunc binary32 0xC0200000 = 0xC0000000"
    by (simp add: trunc_def eval_defs)
  from trunc_sign_and_magnitude [OF wf a]
  have "is_neg binary32 (trunc binary32 0xC0200000) = is_neg binary32 0xC0200000"
    and "\<bar>fval binary32 (trunc binary32 0xC0200000)\<bar> \<le> \<bar>fval binary32 0xC0200000\<bar>"
    and "\<bar>fval binary32 0xC0200000 - fval binary32 (trunc binary32 0xC0200000)\<bar> < 1"
    by blast+
  with wf a v t show ?thesis by blast
qed

lemma trunc_bits_fix_iff:
  assumes "mid_range fmt x"
  shows "trunc_bits fmt x = x \<longleftrightarrow> get_mantissa fmt x mod 2 ^ trim_size_of fmt x = 0"
proof -
  have "x mod 2 ^ trim_size_of fmt x \<le> x" by simp
  then have "trunc_bits fmt x = x \<longleftrightarrow> x mod 2 ^ trim_size_of fmt x = 0"
    unfolding trunc_bits_def by linarith
  then show ?thesis by (simp add: mid_low_bits [OF assms])
qed

lemma low_bits_split:
  fixes m t :: nat
  assumes "1 \<le> t"
  shows "m mod 2 ^ t = 2 ^ (t - 1) * (m div 2 ^ (t - 1) mod 2) + m mod 2 ^ (t - 1)"
proof -
  from assms obtain k where t: "t = Suc k" by (cases t) auto
  have "m mod (2 ^ k * 2) = 2 ^ k * (m div 2 ^ k mod 2) + m mod 2 ^ k"
    by (rule mod_mult2_eq)
  then show ?thesis by (simp add: t mult.commute)
qed

lemma half_bit_iff:
  fixes m t :: nat
  assumes "1 \<le> t"
  shows "odd (m div 2 ^ (t - 1)) \<longleftrightarrow> 2 ^ (t - 1) \<le> m mod 2 ^ t"
proof -
  define r where "r = m mod 2 ^ (t - 1)"
  define p :: nat where "p = 2 ^ (t - 1)"
  have lt: "r < p" by (simp add: r_def p_def)
  have s: "m mod 2 ^ t = p * (m div p mod 2) + r"
    unfolding r_def p_def by (rule low_bits_split [OF assms])
  have b: "m div p mod 2 = 0 \<or> m div p mod 2 = 1" by auto
  then have "m div p mod 2 = 1 \<longleftrightarrow> p \<le> m mod 2 ^ t"
    using lt unfolding s by auto
  then show ?thesis by (simp add: odd_iff_mod_2_eq_one p_def)
qed

lemma away_bits_fields:
  assumes "mid_range fmt x"
  shows "is_neg fmt (away_bits fmt x) = is_neg fmt x"
    and "valid fmt (away_bits fmt x)"
    and "\<not> is_inf_or_nan fmt (away_bits fmt x)"
    and "\<not> is_nan fmt (away_bits fmt x)"
    and "smag fmt (away_bits fmt x) = (int_part fmt x + 1) * unit fmt"
    and "integral_pat fmt (away_bits fmt x)"
    and "\<not> is_zero fmt (away_bits fmt x)"
proof -
  let ?y = "away_bits fmt x" and ?t = "trim_size_of fmt x"
  from assms obtain E2 m2 where
    m2: "m2 < 2 ^ FRACTION_LEN fmt" and E2: "E2 < EXP_MAX fmt" and
    cv: "?y = create_value fmt (is_neg fmt x) E2 m2" and
    sm: "smag fmt ?y = (int_part fmt x + 1) * unit fmt" and
    dv: "2 ^ ?t dvd m2" and
    ee: "E2 = biased_exponent fmt x \<or> E2 = Suc (biased_exponent fmt x) \<and> m2 = 0"
    by (rule away_bits_cv)
  from assms have wf: "wf_format fmt" and v0: "valid fmt x"
    and e0: "0 \<le> get_exponent fmt x" and eF: "get_exponent fmt x < int (FRACTION_LEN fmt)"
    by (simp_all add: mid_range_def)
  have EL: "E2 < 2 ^ EXP_LEN fmt" using E2 by (simp add: EXP_MAX_def)
  note f = create_value_fields [OF m2 EL]
  show n: "is_neg fmt ?y = is_neg fmt x" unfolding cv by (rule f(3))
  show v: "valid fmt ?y" unfolding cv by (rule f(5))
  have be: "biased_exponent fmt ?y = E2" unfolding cv by (rule f(1))
  have gm: "get_mantissa fmt ?y = m2" unfolding cv by (rule f(2))
  show i: "\<not> is_inf_or_nan fmt ?y" using E2 by (simp add: is_inf_or_nan_def be)
  then show "\<not> is_nan fmt ?y" by (simp add: is_nan_def)
  show "smag fmt ?y = (int_part fmt x + 1) * unit fmt" by (rule sm)
  have "0 < smag fmt ?y" using unit_pos [of fmt] by (simp add: sm)
  then show "\<not> is_zero fmt ?y" by (auto simp: is_zero_iff [OF v] smag_def split: if_splits)
  show "integral_pat fmt ?y"
  proof (cases "E2 = biased_exponent fmt x")
    case True
    then have ge: "get_exponent fmt ?y = get_exponent fmt x" by (simp add: get_exponent_def be)
    have mr: "mid_range fmt ?y" using wf v i e0 eF by (simp add: mid_range_def ge)
    have "trim_size_of fmt ?y = ?t" by (simp add: trim_size_of_def ge)
    then have "get_mantissa fmt ?y mod 2 ^ trim_size_of fmt ?y = 0" using dv by (simp add: gm)
    then show ?thesis using v mr by (simp add: integral_pat_def)
  next
    case False
    with ee have E: "E2 = Suc (biased_exponent fmt x)" and m0: "m2 = 0" by simp_all
    have ge: "get_exponent fmt ?y = get_exponent fmt x + 1" by (simp add: get_exponent_def be E)
    show ?thesis
    proof (cases "int (FRACTION_LEN fmt) \<le> get_exponent fmt ?y")
      case True
      then show ?thesis using v by (simp add: integral_pat_def)
    next
      case False
      then have mr: "mid_range fmt ?y" using wf v i e0 by (simp add: mid_range_def ge)
      then show ?thesis using v by (simp add: integral_pat_def gm m0)
    qed
  qed
qed

lemma fval_away:
  assumes "mid_range fmt x"
  shows "fval fmt (away_bits fmt x) = fval fmt (trunc_bits fmt x) + (if is_neg fmt x then -1 else 1)"
proof -
  note af = away_bits_fields [OF assms]
  note tf = trunc_bits_fields [OF assms]
  have u: "(of_nat (unit fmt) :: rat) \<noteq> 0" using unit_pos [of fmt] by simp
  show ?thesis
    using u by (simp add: fval_def sval_def af(1,5) tf(1) smag_mid(1) [OF assms] field_simps)
qed

lemma abs_fval_diff_ge_half:
  "1 / 2 \<le> \<bar>fval fmt x - fval fmt y\<bar> \<longleftrightarrow> int (unit fmt) \<le> 2 * \<bar>sval fmt x - sval fmt y\<bar>"
proof -
  have "(of_int (int (unit fmt)) :: rat) \<le> of_int (2 * \<bar>sval fmt x - sval fmt y\<bar>)
      \<longleftrightarrow> int (unit fmt) \<le> 2 * \<bar>sval fmt x - sval fmt y\<bar>"
    by (rule of_int_le_iff)
  then show ?thesis
    unfolding abs_fval_diff using unit_pos [of fmt] by (simp add: le_divide_eq mult.commute)
qed

lemma frac_mid:
  assumes "mid_range fmt x"
  shows "\<bar>sval fmt x - sval fmt (trunc_bits fmt x)\<bar> =
     int ((get_mantissa fmt x mod 2 ^ trim_size_of fmt x) * 2 ^ (biased_exponent fmt x - 1))"
proof -
  note tf = trunc_bits_fields [OF assms]
  note sm = smag_mid [OF assms]
  have le: "smag fmt (trunc_bits fmt x) \<le> smag fmt x" by (simp add: sm(1,2))
  have "\<bar>sval fmt x - sval fmt (trunc_bits fmt x)\<bar>
      = int (smag fmt x - smag fmt (trunc_bits fmt x))"
    using tf(1) le by (rule sval_diff_same_sign)
  then show ?thesis by (simp add: sm(1,2))
qed

lemma frac_ge_half_iff:
  assumes "mid_range fmt x"
  shows "1 / 2 \<le> \<bar>fval fmt x - fval fmt (trunc fmt x)\<bar> \<longleftrightarrow>
     2 ^ (trim_size_of fmt x - 1) \<le> get_mantissa fmt x mod 2 ^ trim_size_of fmt x"
proof -
  let ?r = "get_mantissa fmt x mod 2 ^ trim_size_of fmt x"
  let ?p = "(2::nat) ^ (biased_exponent fmt x - 1)"
  from assms obtain t where ts: "trim_size_of fmt x = t" and t1: "1 \<le> t" by (rule mid_ctx)
  then obtain k where t: "t = Suc k" by (cases t) auto
  note sm = smag_mid [OF assms]
  have "1 / 2 \<le> \<bar>fval fmt x - fval fmt (trunc fmt x)\<bar> \<longleftrightarrow>
      int (unit fmt) \<le> 2 * int (?r * ?p)"
    by (simp only: trunc_mid [OF assms] abs_fval_diff_ge_half frac_mid [OF assms])
  also have "\<dots> \<longleftrightarrow> unit fmt \<le> 2 * (?r * ?p)"
    by linarith
  also have "\<dots> \<longleftrightarrow> 2 ^ k * 2 * ?p \<le> ?r * 2 * ?p"
    by (simp add: sm(4) ts t mult_ac)
  also have "\<dots> \<longleftrightarrow> 2 ^ k * 2 \<le> ?r * 2" by (simp only: mult_le_cancel2) simp
  also have "\<dots> \<longleftrightarrow> 2 ^ (trim_size_of fmt x - 1) \<le> ?r" by (simp add: ts t)
  finally show ?thesis .
qed

lemma round_high: "int (FRACTION_LEN fmt) \<le> get_exponent fmt x \<Longrightarrow> round_fp fmt rm x = x"
  by (simp add: round_fp_def Let_def)

lemma valid_zero_eq:
  assumes "valid fmt x" "is_zero fmt x"
  shows "x = lit_zero fmt (is_neg fmt x)"
  using valid_create_value [OF assms(1)] assms(2)
  by (simp add: is_zero_iff [OF assms(1)] lit_zero_cv)

lemma round_low:
  assumes "wf_format fmt" "valid fmt x" "\<not> is_inf_or_nan fmt x" "get_exponent fmt x \<le> -1"
  shows "round_fp fmt rm x =
    (if get_exponent fmt x = -1 then lit_one fmt (is_neg fmt x) else lit_zero fmt (is_neg fmt x))"
proof (cases "is_zero fmt x")
  case True
  have b3: "3 \<le> EXP_BIAS fmt" using assms(1) by (rule wf_bias)
  have "biased_exponent fmt x = 0" using True by (simp add: is_zero_iff [OF assms(2)])
  then have "get_exponent fmt x \<noteq> -1" using b3 by (simp add: get_exponent_def)
  moreover have "round_fp fmt rm x = x" using True by (simp add: round_fp_def)
  ultimately show ?thesis using valid_zero_eq [OF assms(2) True] by simp
next
  case False
  have "\<not> int (FRACTION_LEN fmt) \<le> get_exponent fmt x" using assms(4) by simp
  moreover have "get_exponent fmt x \<noteq> -1 \<Longrightarrow> get_exponent fmt x \<le> -2" using assms(4) by simp
  ultimately show ?thesis
    using False assms(3)
    by (simp add: round_fp_def Let_def FPBits_one_lit [OF assms(1)] FPBits_zero_lit)
qed

lemma half_bit_clear:
  fixes m t :: nat
  assumes "1 \<le> t" "m mod 2 ^ t = 0"
  shows "\<not> odd (m div 2 ^ (t - 1))"
  using half_bit_iff [OF assms(1), of m] assms(2) by simp

section \<open>Rounding half away from zero\<close>

text \<open>
  Claim C3. For every finite \<open>x\<close>, \<open>round\<close> returns \<open>1\<close> with the sign of \<open>x\<close> when the
  unbiased exponent is \<open>-1\<close>, the zero with the sign of \<open>x\<close> when the exponent is at most
  \<open>-2\<close>, and otherwise the truncation of \<open>x\<close>, moved one unit away from zero exactly
  when the bit just below the truncation boundary (the half bit) is set, whatever the
  bits below it are; the half bit is set exactly when the discarded fraction is at least
  one half. At \<open>2.5\<close>, \<open>-2.5\<close> and \<open>0.5\<close> in binary32 the results are \<open>3\<close>, \<open>-3\<close>
  and \<open>1\<close>.
\<close>

theorem round_half_away_from_zero:
  assumes "wf_format fmt" "valid fmt x" "\<not> is_inf_or_nan fmt x"
  shows
   "(get_exponent fmt x = -1 \<longrightarrow>
       round_fp fmt rm x = FPBits_one fmt (is_neg fmt x) \<and>
       fval fmt (round_fp fmt rm x) = (if is_neg fmt x then -1 else 1)) \<and>
    (get_exponent fmt x \<le> -2 \<longrightarrow>
       round_fp fmt rm x = FPBits_zero fmt (is_neg fmt x) \<and> is_zero fmt (round_fp fmt rm x)) \<and>
    (int (FRACTION_LEN fmt) \<le> get_exponent fmt x \<longrightarrow> round_fp fmt rm x = x) \<and>
    (0 \<le> get_exponent fmt x \<and> get_exponent fmt x < int (FRACTION_LEN fmt) \<longrightarrow>
       is_neg fmt (round_fp fmt rm x) = is_neg fmt x \<and>
       fval fmt (round_fp fmt rm x) =
         fval fmt (trunc fmt x) +
           (if odd (get_mantissa fmt x div 2 ^ (trim_size_of fmt x - 1))
            then (if is_neg fmt x then -1 else 1) else 0) \<and>
       (odd (get_mantissa fmt x div 2 ^ (trim_size_of fmt x - 1)) \<longleftrightarrow>
          1 / 2 \<le> \<bar>fval fmt x - fval fmt (trunc fmt x)\<bar>))"
  using assms
proof (cases rule: range_cases)
  case high
  then show ?thesis by (simp add: round_high)
next
  case low
  have r: "round_fp fmt rm x =
    (if get_exponent fmt x = -1 then lit_one fmt (is_neg fmt x) else lit_zero fmt (is_neg fmt x))"
    using assms low by (rule round_low)
  show ?thesis
    using low
    by (simp add: r FPBits_one_lit [OF assms(1)] FPBits_zero_lit fval_lit_one [OF assms(1)]
        lit_zero_fields [OF assms(1)])
next
  case mid
  let ?h = "odd (get_mantissa fmt x div 2 ^ (trim_size_of fmt x - 1))"
  from mid obtain t where ts: "trim_size_of fmt x = t" and t1: "1 \<le> t" by (rule mid_ctx)
  have t1': "1 \<le> trim_size_of fmt x" using ts t1 by simp
  note tf = trunc_bits_fields [OF mid]
  note af = away_bits_fields [OF mid]
  have tr: "trunc fmt x = trunc_bits fmt x" using mid by (rule trunc_mid)
  have fx: "trunc_bits fmt x = x \<Longrightarrow> \<not> ?h"
    using half_bit_clear [OF t1'] by (simp add: trunc_bits_fix_iff [OF mid])
  have r: "round_fp fmt rm x = (if ?h then away_bits fmt x else trunc_bits fmt x)"
    using fx by (auto simp: round_mid [OF mid] odd_iff_mod_2_eq_one)
  have hv: "?h \<longleftrightarrow> 1 / 2 \<le> \<bar>fval fmt x - fval fmt (trunc fmt x)\<bar>"
    unfolding frac_ge_half_iff [OF mid] by (rule half_bit_iff [OF t1'])
  have e: "get_exponent fmt x \<noteq> -1" "\<not> get_exponent fmt x \<le> -2"
    "\<not> int (FRACTION_LEN fmt) \<le> get_exponent fmt x"
    using mid by (simp_all add: mid_range_def)
  have "is_neg fmt (round_fp fmt rm x) = is_neg fmt x" by (simp add: r tf(1) af(1))
  moreover have "fval fmt (round_fp fmt rm x) =
         fval fmt (trunc fmt x) + (if ?h then (if is_neg fmt x then -1 else 1) else 0)"
    by (simp add: r tr fval_away [OF mid])
  ultimately show ?thesis using e hv by simp
qed

theorem round_half_away_from_zero_witness:
  "wf_format binary32 \<and>
   valid binary32 0x40200000 \<and> \<not> is_inf_or_nan binary32 0x40200000 \<and>
   valid binary32 0xC0200000 \<and> \<not> is_inf_or_nan binary32 0xC0200000 \<and>
   valid binary32 0x3F000000 \<and> \<not> is_inf_or_nan binary32 0x3F000000 \<and>
   fval binary32 0x40200000 = 5 / 2 \<and> fval binary32 0xC0200000 = - (5 / 2) \<and>
   fval binary32 0x3F000000 = 1 / 2 \<and>
   get_exponent binary32 0x40200000 = 1 \<and> get_exponent binary32 0xC0200000 = 1 \<and>
   get_exponent binary32 0x3F000000 = -1 \<and>
   fval binary32 (round_fp binary32 FE_TONEAREST 0x40200000) = 3 \<and>
   fval binary32 (round_fp binary32 FE_TONEAREST 0xC0200000) = - 3 \<and>
   fval binary32 (round_fp binary32 FE_TONEAREST 0x3F000000) = 1"
proof -
  have wf: "wf_format binary32" by (simp add: fmt_defs)
  have a: "valid binary32 0x40200000" "\<not> is_inf_or_nan binary32 0x40200000"
    by (simp_all add: eval_defs)
  have b: "valid binary32 0xC0200000" "\<not> is_inf_or_nan binary32 0xC0200000"
    by (simp_all add: eval_defs)
  have c: "valid binary32 0x3F000000" "\<not> is_inf_or_nan binary32 0x3F000000"
    by (simp_all add: eval_defs)
  have v: "fval binary32 0x40200000 = 5 / 2" "fval binary32 0xC0200000 = - (5 / 2)"
    "fval binary32 0x3F000000 = 1 / 2"
    by (simp_all add: eval_defs)
  have e: "get_exponent binary32 0x40200000 = 1" "get_exponent binary32 0xC0200000 = 1"
    "get_exponent binary32 0x3F000000 = -1"
    by (simp_all add: eval_defs)
  have F: "FRACTION_LEN binary32 = 23" by (simp add: binary32_def)
  have s: "\<not> is_neg binary32 0x40200000" "is_neg binary32 0xC0200000"
    "\<not> is_neg binary32 0x3F000000"
    by (simp_all add: eval_defs)
  have h: "odd (get_mantissa binary32 0x40200000 div 2 ^ (trim_size_of binary32 0x40200000 - 1))"
    "odd (get_mantissa binary32 0xC0200000 div 2 ^ (trim_size_of binary32 0xC0200000 - 1))"
    by (simp_all add: trim_size_of_def eval_defs)
  have t: "fval binary32 (trunc binary32 0x40200000) = 2"
    "fval binary32 (trunc binary32 0xC0200000) = - 2"
    by (simp_all add: trunc_def eval_defs)
  from round_half_away_from_zero [OF wf a, of FE_TONEAREST]
  have r1: "fval binary32 (round_fp binary32 FE_TONEAREST 0x40200000) = 3"
    by (simp add: e F h s t v)
  from round_half_away_from_zero [OF wf b, of FE_TONEAREST]
  have r2: "fval binary32 (round_fp binary32 FE_TONEAREST 0xC0200000) = - 3"
    by (simp add: e F h s t v)
  from round_half_away_from_zero [OF wf c, of FE_TONEAREST]
  have r3: "fval binary32 (round_fp binary32 FE_TONEAREST 0x3F000000) = 1"
    using e(3) s(3) by auto
  from wf a b c v e r1 r2 r3 show ?thesis by blast
qed

lemma frac_eq:
  assumes "mid_range fmt x"
  shows "\<bar>fval fmt x - fval fmt (trunc fmt x)\<bar> =
     of_nat (get_mantissa fmt x mod 2 ^ trim_size_of fmt x) / 2 ^ trim_size_of fmt x"
proof -
  let ?r = "get_mantissa fmt x mod 2 ^ trim_size_of fmt x"
  let ?p = "(2::nat) ^ (biased_exponent fmt x - 1)"
  note sm = smag_mid [OF assms]
  have p: "(of_nat ?p :: rat) \<noteq> 0" by simp
  have "\<bar>fval fmt x - fval fmt (trunc fmt x)\<bar> = of_int (int (?r * ?p)) / of_nat (unit fmt)"
    by (simp only: trunc_mid [OF assms] abs_fval_diff frac_mid [OF assms])
  also have "\<dots> = (of_nat ?r * of_nat ?p) / (of_nat (2 ^ trim_size_of fmt x) * of_nat ?p)"
    by (simp add: sm(4))
  also have "\<dots> = of_nat ?r / of_nat (2 ^ trim_size_of fmt x)"
    using p by (rule mult_divide_mult_cancel_right)
  finally show ?thesis by simp
qed

lemma frac_compare:
  assumes "mid_range fmt x"
  shows "\<bar>fval fmt x - fval fmt (trunc fmt x)\<bar> < 1 / 2 \<longleftrightarrow>
           get_mantissa fmt x mod 2 ^ trim_size_of fmt x < 2 ^ (trim_size_of fmt x - 1)"
    and "1 / 2 < \<bar>fval fmt x - fval fmt (trunc fmt x)\<bar> \<longleftrightarrow>
           2 ^ (trim_size_of fmt x - 1) < get_mantissa fmt x mod 2 ^ trim_size_of fmt x"
    and "\<bar>fval fmt x - fval fmt (trunc fmt x)\<bar> = 1 / 2 \<longleftrightarrow>
           get_mantissa fmt x mod 2 ^ trim_size_of fmt x = 2 ^ (trim_size_of fmt x - 1)"
proof -
  let ?d = "\<bar>fval fmt x - fval fmt (trunc fmt x)\<bar>"
  let ?r = "get_mantissa fmt x mod 2 ^ trim_size_of fmt x"
  have ge: "1 / 2 \<le> ?d \<longleftrightarrow> 2 ^ (trim_size_of fmt x - 1) \<le> ?r"
    using assms by (rule frac_ge_half_iff)
  then show lt: "?d < 1 / 2 \<longleftrightarrow> ?r < 2 ^ (trim_size_of fmt x - 1)" by linarith
  from assms obtain t where ts: "trim_size_of fmt x = t" and t1: "1 \<le> t" by (rule mid_ctx)
  then obtain k where t: "t = Suc k" by (cases t) auto
  have d: "?d = of_nat ?r / 2 ^ Suc k" using frac_eq [OF assms] by (simp only: ts t)
  have "?d = 1 / 2 \<longleftrightarrow> (of_nat ?r :: rat) = 2 ^ k"
    unfolding d by (auto simp: field_simps)
  also have "\<dots> \<longleftrightarrow> ?r = 2 ^ k"
    using of_nat_eq_iff [where 'a = rat, of ?r "2 ^ k"] by auto
  finally show eq: "?d = 1 / 2 \<longleftrightarrow> ?r = 2 ^ (trim_size_of fmt x - 1)" by (simp add: ts t)
  show "1 / 2 < ?d \<longleftrightarrow> 2 ^ (trim_size_of fmt x - 1) < ?r"
    using ge eq by linarith
qed

lemma fval_trunc_bits:
  assumes "mid_range fmt x"
  shows "\<bar>fval fmt (trunc_bits fmt x)\<bar> = of_nat (int_part fmt x)"
  using unit_pos [of fmt] by (simp add: fval_abs smag_mid(1) [OF assms])

lemma fval_lit_two: "wf_format fmt \<Longrightarrow> fval fmt (lit_two fmt s) = (if s then -2 else 2)"
proof -
  assume wf: "wf_format fmt"
  have z: "(0::nat) < 2 ^ FRACTION_LEN fmt" by simp
  have b: "Suc (EXP_BIAS fmt) < 2 ^ EXP_LEN fmt" using wf by (rule bias_less_exp_len)
  have b3: "3 \<le> EXP_BIAS fmt" using wf by (rule wf_bias)
  then obtain c where c: "EXP_BIAS fmt = Suc c" by (cases "EXP_BIAS fmt") auto
  have u: "unit fmt = 2 ^ FRACTION_LEN fmt * 2 ^ c" by (simp add: unit_def c power_add)
  have sm: "smag fmt (lit_two fmt s) = 2 * unit fmt"
    unfolding lit_two_cv [OF wf] using smag_create_value [OF z b, of s] by (simp add: u c)
  have n: "is_neg fmt (lit_two fmt s) = s"
    unfolding lit_two_cv [OF wf] by (rule create_value_fields(3) [OF z b])
  show ?thesis using unit_pos [of fmt] sm n by (cases s) (simp_all add: fval_def sval_def)
qed

lemma int_part_odd:
  assumes "mid_range fmt x"
  shows "odd (int_part fmt x) \<longleftrightarrow>
    get_exponent fmt x = 0 \<or> odd (get_mantissa fmt x div 2 ^ trim_size_of fmt x)"
proof -
  from assms obtain e t where ge: "get_exponent fmt x = int e"
    and F: "FRACTION_LEN fmt = e + t" and ts: "trim_size_of fmt x = t"
    by (rule mid_ctx)
  show ?thesis
  proof (cases "e = 0")
    case True
    then have "get_mantissa fmt x div 2 ^ t = 0"
      using get_mantissa_less [of fmt x] F by simp
    then show ?thesis using True by (simp add: int_part_def ge ts)
  next
    case False
    then show ?thesis by (simp add: int_part_def ge ts)
  qed
qed

section \<open>Rounding to nearest, ties to even\<close>

text \<open>
  Claim C2. For a finite \<open>x\<close> with unbiased exponent \<open>e\<close>, \<open>0 \<le> e < FRACTION_LEN\<close>, that is
  not integral, \<open>round_using_specific_rounding_mode\<close> with \<open>FP_INT_TONEAREST\<close> returns the
  truncation when the trimmed fraction is below one half, moves one unit away from zero
  when it is above one half, and on an exact tie moves one unit away from zero exactly
  when the truncated value is odd: for \<open>e > 0\<close> that is the lowest kept mantissa bit, and
  for \<open>e = 0\<close> (where \<open>x\<close> is \<open>1.5\<close> or \<open>-1.5\<close>) the result is \<open>2\<close> with the sign of \<open>x\<close>.
  In binary32, \<open>2.5\<close> gives \<open>2\<close>, \<open>3.5\<close> gives \<open>4\<close> and \<open>-2.5\<close> gives \<open>-2\<close>.
\<close>

theorem to_nearest_ties_to_even:
  assumes "wf_format fmt" "valid fmt x" "\<not> is_inf_or_nan fmt x"
    "0 \<le> get_exponent fmt x" "get_exponent fmt x < int (FRACTION_LEN fmt)"
    "trunc fmt x \<noteq> x"
  shows
   "is_neg fmt (round_using_specific_rounding_mode fmt rm x FP_INT_TONEAREST) = is_neg fmt x \<and>
    (\<bar>fval fmt x - fval fmt (trunc fmt x)\<bar> < 1 / 2 \<longrightarrow>
       round_using_specific_rounding_mode fmt rm x FP_INT_TONEAREST = trunc fmt x) \<and>
    (1 / 2 < \<bar>fval fmt x - fval fmt (trunc fmt x)\<bar> \<longrightarrow>
       fval fmt (round_using_specific_rounding_mode fmt rm x FP_INT_TONEAREST) =
         fval fmt (trunc fmt x) + (if is_neg fmt x then -1 else 1)) \<and>
    (\<bar>fval fmt x - fval fmt (trunc fmt x)\<bar> = 1 / 2 \<longrightarrow>
       (if odd \<lfloor>\<bar>fval fmt (trunc fmt x)\<bar>\<rfloor>
        then fval fmt (round_using_specific_rounding_mode fmt rm x FP_INT_TONEAREST) =
               fval fmt (trunc fmt x) + (if is_neg fmt x then -1 else 1)
        else round_using_specific_rounding_mode fmt rm x FP_INT_TONEAREST = trunc fmt x) \<and>
       (0 < get_exponent fmt x \<longrightarrow>
          odd \<lfloor>\<bar>fval fmt (trunc fmt x)\<bar>\<rfloor> =
            odd (get_mantissa fmt (trunc fmt x) div 2 ^ trim_size_of fmt x)) \<and>
       (get_exponent fmt x = 0 \<longrightarrow>
          round_using_specific_rounding_mode fmt rm x FP_INT_TONEAREST = lit_two fmt (is_neg fmt x) \<and>
          fval fmt (round_using_specific_rounding_mode fmt rm x FP_INT_TONEAREST) =
            (if is_neg fmt x then -2 else 2)))"
proof -
  let ?r = "round_using_specific_rounding_mode fmt rm x FP_INT_TONEAREST"
  let ?m = "get_mantissa fmt x mod 2 ^ trim_size_of fmt x"
  let ?h = "(2::nat) ^ (trim_size_of fmt x - 1)"
  let ?sg = "(if is_neg fmt x then -1 else 1) :: rat"
  have mid: "mid_range fmt x" using assms(1-5) by (simp add: mid_range_def)
  have tr: "trunc fmt x = trunc_bits fmt x" using mid by (rule trunc_mid)
  have ne: "trunc_bits fmt x \<noteq> x" using assms(6) by (simp add: tr)
  note tf = trunc_bits_fields [OF mid]
  note af = away_bits_fields [OF mid]
  note fc = frac_compare [OF mid]
  have r: "?r =
       (if ?m > ?h then away_bits fmt x
        else if ?m = ?h then
          (if get_exponent fmt x = 0 then lit_two fmt (is_neg fmt x)
           else if odd (get_mantissa fmt x div 2 ^ trim_size_of fmt x)
                then away_bits fmt x else trunc_bits fmt x)
        else trunc_bits fmt x)"
    using ne by (simp add: rusrm_mid [OF mid] mode_defs)
  have z: "(0::nat) < 2 ^ FRACTION_LEN fmt" by simp
  have two_neg: "is_neg fmt (lit_two fmt (is_neg fmt x)) = is_neg fmt x"
    unfolding lit_two_cv [OF assms(1)]
    by (rule create_value_fields(3) [OF z bias_less_exp_len [OF assms(1)]])
  have sgn: "is_neg fmt ?r = is_neg fmt x" by (simp add: r tf(1) af(1) two_neg)
  have lo: "\<bar>fval fmt x - fval fmt (trunc fmt x)\<bar> < 1 / 2 \<Longrightarrow> ?r = trunc fmt x"
    unfolding fc(1) by (simp add: r tr)
  have hi: "1 / 2 < \<bar>fval fmt x - fval fmt (trunc fmt x)\<bar> \<Longrightarrow>
      fval fmt ?r = fval fmt (trunc fmt x) + ?sg"
    unfolding fc(2) by (simp add: r tr fval_away [OF mid])
  have fl: "\<lfloor>\<bar>fval fmt (trunc fmt x)\<bar>\<rfloor> = int (int_part fmt x)"
    by (simp add: tr fval_trunc_bits [OF mid])
  have od: "odd \<lfloor>\<bar>fval fmt (trunc fmt x)\<bar>\<rfloor> \<longleftrightarrow>
      get_exponent fmt x = 0 \<or> odd (get_mantissa fmt x div 2 ^ trim_size_of fmt x)"
    by (simp add: fl int_part_odd [OF mid])
  have mt: "get_mantissa fmt (trunc fmt x) div 2 ^ trim_size_of fmt x =
      get_mantissa fmt x div 2 ^ trim_size_of fmt x"
    by (simp add: tr tf(3))
  have one: "get_exponent fmt x = 0 \<Longrightarrow> fval fmt (trunc fmt x) = ?sg"
  proof -
    assume e0: "get_exponent fmt x = 0"
    then have "odd (int_part fmt x)" by (simp add: int_part_odd [OF mid])
    moreover have "int_part fmt x < 2" using smag_mid(6) [OF mid] e0 by simp
    ultimately have "int_part fmt x = 1" by presburger
    then have "smag fmt (trunc_bits fmt x) = unit fmt" by (simp add: smag_mid(1) [OF mid])
    then show ?thesis using unit_pos [of fmt] by (simp add: tr fval_def sval_def tf(1))
  qed
  have tie: "\<bar>fval fmt x - fval fmt (trunc fmt x)\<bar> = 1 / 2 \<Longrightarrow>
       (if odd \<lfloor>\<bar>fval fmt (trunc fmt x)\<bar>\<rfloor>
        then fval fmt ?r = fval fmt (trunc fmt x) + ?sg
        else ?r = trunc fmt x) \<and>
       (0 < get_exponent fmt x \<longrightarrow>
          odd \<lfloor>\<bar>fval fmt (trunc fmt x)\<bar>\<rfloor> =
            odd (get_mantissa fmt (trunc fmt x) div 2 ^ trim_size_of fmt x)) \<and>
       (get_exponent fmt x = 0 \<longrightarrow>
          ?r = lit_two fmt (is_neg fmt x) \<and> fval fmt ?r = (if is_neg fmt x then -2 else 2))"
    unfolding fc(3) od mt
    using one by (auto simp: r tr fval_away [OF mid] fval_lit_two [OF assms(1)])
  show ?thesis using sgn lo hi tie by blast
qed

theorem to_nearest_ties_to_even_witness:
  "wf_format binary32 \<and>
   valid binary32 0x40200000 \<and> \<not> is_inf_or_nan binary32 0x40200000 \<and>
   0 \<le> get_exponent binary32 0x40200000 \<and>
   get_exponent binary32 0x40200000 < int (FRACTION_LEN binary32) \<and>
   trunc binary32 0x40200000 \<noteq> 0x40200000 \<and>
   fval binary32 0x40200000 = 5 / 2 \<and> fval binary32 (trunc binary32 0x40200000) = 2 \<and>
   round_using_specific_rounding_mode binary32 FE_TONEAREST 0x40200000 FP_INT_TONEAREST
     = trunc binary32 0x40200000 \<and>
   fval binary32 0x40600000 = 7 / 2 \<and>
   fval binary32 (round_using_specific_rounding_mode binary32 FE_TONEAREST 0x40600000
     FP_INT_TONEAREST) = 4 \<and>
   fval binary32 0xC0200000 = - (5 / 2) \<and>
   fval binary32 (round_using_specific_rounding_mode binary32 FE_TONEAREST 0xC0200000
     FP_INT_TONEAREST) = - 2"
proof -
  have wf: "wf_format binary32" by (simp add: fmt_defs)
  have a: "valid binary32 0x40200000" "\<not> is_inf_or_nan binary32 0x40200000"
    "0 \<le> get_exponent binary32 0x40200000"
    "get_exponent binary32 0x40200000 < int (FRACTION_LEN binary32)"
    "trunc binary32 0x40200000 \<noteq> 0x40200000"
    by (simp_all add: trunc_def eval_defs)
  have b: "valid binary32 0x40600000" "\<not> is_inf_or_nan binary32 0x40600000"
    "0 \<le> get_exponent binary32 0x40600000"
    "get_exponent binary32 0x40600000 < int (FRACTION_LEN binary32)"
    "trunc binary32 0x40600000 \<noteq> 0x40600000"
    by (simp_all add: trunc_def eval_defs)
  have c: "valid binary32 0xC0200000" "\<not> is_inf_or_nan binary32 0xC0200000"
    "0 \<le> get_exponent binary32 0xC0200000"
    "get_exponent binary32 0xC0200000 < int (FRACTION_LEN binary32)"
    "trunc binary32 0xC0200000 \<noteq> 0xC0200000"
    by (simp_all add: trunc_def eval_defs)
  have v: "fval binary32 0x40200000 = 5 / 2" "fval binary32 0x40600000 = 7 / 2"
    "fval binary32 0xC0200000 = - (5 / 2)"
    by (simp_all add: eval_defs)
  have t: "fval binary32 (trunc binary32 0x40200000) = 2"
    "fval binary32 (trunc binary32 0x40600000) = 3"
    "fval binary32 (trunc binary32 0xC0200000) = - 2"
    by (simp_all add: trunc_def eval_defs)
  have s: "\<not> is_neg binary32 0x40200000" "\<not> is_neg binary32 0x40600000"
    "is_neg binary32 0xC0200000"
    by (simp_all add: eval_defs)
  from to_nearest_ties_to_even [OF wf a, of FE_TONEAREST]
  have r1: "round_using_specific_rounding_mode binary32 FE_TONEAREST 0x40200000 FP_INT_TONEAREST
     = trunc binary32 0x40200000"
    by (simp add: v t s)
  from to_nearest_ties_to_even [OF wf b, of FE_TONEAREST]
  have r2: "fval binary32 (round_using_specific_rounding_mode binary32 FE_TONEAREST 0x40600000
     FP_INT_TONEAREST) = 4"
    by (simp add: v t s)
  from to_nearest_ties_to_even [OF wf c, of FE_TONEAREST]
  have r3: "fval binary32 (round_using_specific_rounding_mode binary32 FE_TONEAREST 0xC0200000
     FP_INT_TONEAREST) = - 2"
    by (simp add: v t s)
  from wf a v t r1 r2 r3 show ?thesis by blast
qed

lemma rusrm_edge:
  "is_inf_or_nan fmt y \<or> is_zero fmt y \<Longrightarrow> round_using_specific_rounding_mode fmt rm y rnd = y"
  by (simp add: round_using_specific_rounding_mode_def)
lemma rusrm_high:
  "int (FRACTION_LEN fmt) \<le> get_exponent fmt y \<Longrightarrow> round_using_specific_rounding_mode fmt rm y rnd = y"
  by (simp add: round_using_specific_rounding_mode_def Let_def)
lemma rusrm_low:
  assumes "\<not> is_inf_or_nan fmt x" "\<not> is_zero fmt x" "get_exponent fmt x \<le> -1"
  shows "round_using_specific_rounding_mode fmt rm x rnd =
     (if rnd = FP_INT_DOWNWARD then (if is_neg fmt x then lit_one fmt True else lit_zero fmt False)
      else if rnd = FP_INT_UPWARD then (if is_neg fmt x then lit_zero fmt True else lit_one fmt False)
      else if rnd = FP_INT_TOWARDZERO then lit_zero fmt (is_neg fmt x)
      else if rnd = FP_INT_TONEARESTFROMZERO then
        (if get_exponent fmt x < -1 then lit_zero fmt (is_neg fmt x) else lit_one fmt (is_neg fmt x))
      else
        (if get_exponent fmt x \<le> -2 \<or> get_mantissa fmt x = 0 then lit_zero fmt (is_neg fmt x)
         else lit_one fmt (is_neg fmt x)))"
proof -
  have F: "\<not> int (FRACTION_LEN fmt) \<le> get_exponent fmt x" using assms(3) by simp
  show ?thesis
    using assms F
    by (simp add: round_using_specific_rounding_mode_def Let_def split del: if_split)
qed
lemma ceil_edge:
  "is_inf_or_nan fmt y \<or> is_zero fmt y \<Longrightarrow> ceil fmt rm y = y"
  by (simp add: ceil_def)
lemma ceil_high:
  "int (FRACTION_LEN fmt) \<le> get_exponent fmt y \<Longrightarrow> ceil fmt rm y = y"
  by (simp add: ceil_def Let_def)
lemma ceil_low:
  assumes "\<not> is_inf_or_nan fmt x" "\<not> is_zero fmt x" "get_exponent fmt x \<le> -1"
  shows "ceil fmt rm x = (if is_neg fmt x then lit_zero fmt True else lit_one fmt False)"
proof -
  have F: "\<not> int (FRACTION_LEN fmt) \<le> get_exponent fmt x" using assms(3) by simp
  show ?thesis using assms F by (simp add: ceil_def Let_def)
qed
lemma round_edge:
  "is_inf_or_nan fmt y \<or> is_zero fmt y \<Longrightarrow> round_fp fmt rm y = y"
  by (simp add: round_fp_def)
lemma trunc_edge:
  "is_inf_or_nan fmt y \<Longrightarrow> trunc fmt y = y"
  by (simp add: trunc_def)

lemma integral_pat_fixed:
  assumes "wf_format fmt" "integral_pat fmt y"
  shows "trunc fmt y = y"
    and "ceil fmt rm y = y"
    and "round_fp fmt rm y = y"
    and "round_using_specific_rounding_mode fmt rm y rnd = y"
proof -
  from assms(2) have v: "valid fmt y" by (simp add: integral_pat_def)
  have "trunc fmt y = y \<and> ceil fmt rm y = y \<and> round_fp fmt rm y = y \<and>
        round_using_specific_rounding_mode fmt rm y rnd = y"
  proof (cases "is_inf_or_nan fmt y \<or> int (FRACTION_LEN fmt) \<le> get_exponent fmt y")
    case True
    then show ?thesis
    proof
      assume i: "is_inf_or_nan fmt y"
      then show ?thesis by (simp add: trunc_edge ceil_edge round_edge rusrm_edge)
    next
      assume h: "int (FRACTION_LEN fmt) \<le> get_exponent fmt y"
      show ?thesis
      proof (cases "is_inf_or_nan fmt y")
        case True
        then show ?thesis by (simp add: trunc_edge ceil_edge round_edge rusrm_edge)
      next
        case False
        then show ?thesis using h by (simp add: trunc_high ceil_high round_high rusrm_high)
      qed
    qed
  next
    case nh: False
    show ?thesis
    proof (cases "is_zero fmt y")
      case True
      have b3: "3 \<le> EXP_BIAS fmt" using assms(1) by (rule wf_bias)
      have "biased_exponent fmt y = 0" using True by (simp add: is_zero_iff [OF v])
      then have "get_exponent fmt y \<le> -1" using b3 by (simp add: get_exponent_def)
      then have "trunc fmt y = lit_zero fmt (is_neg fmt y)" using nh by (simp add: trunc_low)
      then have "trunc fmt y = y" using valid_zero_eq [OF v True] by simp
      then show ?thesis
        using True by (simp add: ceil_edge round_edge rusrm_edge)
    next
      case False
      with assms(2) nh have mid: "mid_range fmt y"
        and m0: "get_mantissa fmt y mod 2 ^ trim_size_of fmt y = 0"
        by (auto simp: integral_pat_def)
      have tb: "trunc_bits fmt y = y" using m0 by (simp add: trunc_bits_fix_iff [OF mid])
      show ?thesis by (simp add: trunc_mid [OF mid] ceil_mid [OF mid] round_mid [OF mid]
            rusrm_mid [OF mid] tb)
    qed
  qed
  then show "trunc fmt y = y" and "ceil fmt rm y = y" and "round_fp fmt rm y = y"
    and "round_using_specific_rounding_mode fmt rm y rnd = y"
    by simp_all
qed

lemma integral_pat_lit_zero: "wf_format fmt \<Longrightarrow> integral_pat fmt (lit_zero fmt s)"
  by (simp add: integral_pat_def lit_zero_fields)

lemma integral_pat_lit_one: "wf_format fmt \<Longrightarrow> integral_pat fmt (lit_one fmt s)"
proof -
  assume wf: "wf_format fmt"
  note lf = lit_one_fields [OF wf]
  have "1 \<le> FRACTION_LEN fmt" using wf by (simp add: wf_format_def)
  then have "mid_range fmt (lit_one fmt s)" using wf by (simp add: mid_range_def lf)
  then show ?thesis by (simp add: integral_pat_def lf)
qed

lemma lit_two_fields:
  assumes "wf_format fmt"
  shows "biased_exponent fmt (lit_two fmt s) = Suc (EXP_BIAS fmt)"
    and "get_mantissa fmt (lit_two fmt s) = 0"
    and "is_neg fmt (lit_two fmt s) = s"
    and "valid fmt (lit_two fmt s)"
    and "\<not> is_inf_or_nan fmt (lit_two fmt s)"
    and "get_exponent fmt (lit_two fmt s) = 1"
proof -
  have z: "(0::nat) < 2 ^ FRACTION_LEN fmt" by simp
  note f = create_value_fields [OF z bias_less_exp_len [OF assms]]
  have b3: "3 \<le> EXP_BIAS fmt" using assms by (rule wf_bias)
  show e: "biased_exponent fmt (lit_two fmt s) = Suc (EXP_BIAS fmt)"
    unfolding lit_two_cv [OF assms] by (rule f(1))
  show "get_mantissa fmt (lit_two fmt s) = 0" unfolding lit_two_cv [OF assms] by (rule f(2))
  show "is_neg fmt (lit_two fmt s) = s" unfolding lit_two_cv [OF assms] by (rule f(3))
  show "valid fmt (lit_two fmt s)" unfolding lit_two_cv [OF assms] by (rule f(5))
  show "\<not> is_inf_or_nan fmt (lit_two fmt s)"
    using b3 by (simp add: is_inf_or_nan_def e wf_exp_max [OF assms])
  show "get_exponent fmt (lit_two fmt s) = 1" by (simp add: get_exponent_def e)
qed

lemma integral_pat_lit_two: "wf_format fmt \<Longrightarrow> integral_pat fmt (lit_two fmt s)"
proof -
  assume wf: "wf_format fmt"
  note lf = lit_two_fields [OF wf]
  show ?thesis
  proof (cases "int (FRACTION_LEN fmt) \<le> 1")
    case True
    then show ?thesis by (simp add: integral_pat_def lf)
  next
    case False
    then have "mid_range fmt (lit_two fmt s)" using wf by (simp add: mid_range_def lf)
    then show ?thesis by (simp add: integral_pat_def lf)
  qed
qed

lemma integral_pat_trunc_bits: "mid_range fmt x \<Longrightarrow> integral_pat fmt (trunc_bits fmt x)"
  by (simp add: integral_pat_def trunc_bits_fields)

lemma integral_pat_edge:
  "valid fmt x \<Longrightarrow>
   is_inf_or_nan fmt x \<or> is_zero fmt x \<or> int (FRACTION_LEN fmt) \<le> get_exponent fmt x \<Longrightarrow>
   integral_pat fmt x"
  by (auto simp: integral_pat_def)

lemma integral_pat_results:
  assumes "wf_format fmt" "valid fmt x"
  shows "integral_pat fmt (trunc fmt x)"
    and "integral_pat fmt (ceil fmt rm x)"
    and "integral_pat fmt (round_fp fmt rm x)"
    and "integral_pat fmt (round_using_specific_rounding_mode fmt rm x rnd)"
proof -
  note z = integral_pat_lit_zero [OF assms(1)]
  note o = integral_pat_lit_one [OF assms(1)]
  note tw = integral_pat_lit_two [OF assms(1)]
  have "integral_pat fmt (trunc fmt x) \<and> integral_pat fmt (ceil fmt rm x) \<and>
        integral_pat fmt (round_fp fmt rm x) \<and>
        integral_pat fmt (round_using_specific_rounding_mode fmt rm x rnd)"
  proof (cases "is_inf_or_nan fmt x \<or> int (FRACTION_LEN fmt) \<le> get_exponent fmt x")
    case True
    then have i: "integral_pat fmt x" using assms(2) by (auto intro: integral_pat_edge)
    then show ?thesis using integral_pat_fixed [OF assms(1) i] by simp
  next
    case nh: False
    then have fin: "\<not> is_inf_or_nan fmt x" by simp
    show ?thesis
    proof (cases "is_zero fmt x")
      case True
      then have i: "integral_pat fmt x" using assms(2) by (auto intro: integral_pat_edge)
      then show ?thesis using integral_pat_fixed [OF assms(1) i] by simp
    next
      case nz: False
      from assms fin show ?thesis
      proof (cases rule: range_cases)
        case high
        then show ?thesis using nh by simp
      next
        case low
        have 1: "integral_pat fmt (trunc fmt x)" using fin low z by (simp add: trunc_low)
        have 2: "integral_pat fmt (ceil fmt rm x)"
          using z o by (simp add: ceil_low [OF fin nz low])
        have 3: "integral_pat fmt (round_fp fmt rm x)"
          using z o by (simp add: round_low [OF assms fin low])
        have 4: "integral_pat fmt (round_using_specific_rounding_mode fmt rm x rnd)"
          using z o by (simp add: rusrm_low [OF fin nz low])
        from 1 2 3 4 show ?thesis by simp
      next
        case mid
        note t = integral_pat_trunc_bits [OF mid]
        note a = away_bits_fields(6) [OF mid]
        have x: "trunc_bits fmt x = x \<Longrightarrow> integral_pat fmt x" using t by simp
        have 1: "integral_pat fmt (trunc fmt x)" using t by (simp add: trunc_mid [OF mid])
        have 2: "integral_pat fmt (ceil fmt rm x)" using t a x by (simp add: ceil_mid [OF mid])
        have 3: "integral_pat fmt (round_fp fmt rm x)"
          using t a x by (simp add: round_mid [OF mid])
        have 4: "integral_pat fmt (round_using_specific_rounding_mode fmt rm x rnd)"
          using t a x tw by (simp add: rusrm_mid [OF mid])
        from 1 2 3 4 show ?thesis by simp
      qed
    qed
  qed
  then show "integral_pat fmt (trunc fmt x)"
    and "integral_pat fmt (ceil fmt rm x)"
    and "integral_pat fmt (round_fp fmt rm x)"
    and "integral_pat fmt (round_using_specific_rounding_mode fmt rm x rnd)"
    by simp_all
qed

lemma fneg_cv:
  assumes "valid fmt y"
  shows "fneg fmt y = create_value fmt (\<not> is_neg fmt y) (biased_exponent fmt y) (get_mantissa fmt y)"
proof -
  have y: "y = sign_bits fmt (is_neg fmt y) + biased_exponent fmt y * 2 ^ FRACTION_LEN fmt
      + get_mantissa fmt y"
    using valid_create_value [OF assms]
    by (simp add: create_value_in_range get_mantissa_less biased_exponent_less)
  have "fneg fmt y = sign_bits fmt (\<not> is_neg fmt y) + biased_exponent fmt y * 2 ^ FRACTION_LEN fmt
      + get_mantissa fmt y"
  proof (cases "is_neg fmt y")
    case True
    then have "y = SIGN_MASK fmt + biased_exponent fmt y * 2 ^ FRACTION_LEN fmt + get_mantissa fmt y"
      using y by (simp add: sign_bits_def)
    then have "y - SIGN_MASK fmt = biased_exponent fmt y * 2 ^ FRACTION_LEN fmt + get_mantissa fmt y"
      by linarith
    then show ?thesis using True by (simp add: fneg_def sign_bits_def)
  next
    case False
    then have "y = biased_exponent fmt y * 2 ^ FRACTION_LEN fmt + get_mantissa fmt y"
      using y by (simp add: sign_bits_def)
    then have "y + SIGN_MASK fmt =
        SIGN_MASK fmt + biased_exponent fmt y * 2 ^ FRACTION_LEN fmt + get_mantissa fmt y"
      by linarith
    then show ?thesis using False by (simp add: fneg_def sign_bits_def)
  qed
  then show ?thesis
    by (simp add: create_value_in_range get_mantissa_less biased_exponent_less)
qed

lemma fneg_fields:
  assumes "valid fmt y"
  shows "is_neg fmt (fneg fmt y) = (\<not> is_neg fmt y)"
    and "biased_exponent fmt (fneg fmt y) = biased_exponent fmt y"
    and "get_mantissa fmt (fneg fmt y) = get_mantissa fmt y"
    and "valid fmt (fneg fmt y)"
    and "get_exponent fmt (fneg fmt y) = get_exponent fmt y"
    and "is_inf_or_nan fmt (fneg fmt y) = is_inf_or_nan fmt y"
    and "is_nan fmt (fneg fmt y) = is_nan fmt y"
    and "is_zero fmt (fneg fmt y) = is_zero fmt y"
    and "smag fmt (fneg fmt y) = smag fmt y"
    and "fneg fmt (fneg fmt y) = y"
proof -
  note f = create_value_fields [OF get_mantissa_less biased_exponent_less]
  show n: "is_neg fmt (fneg fmt y) = (\<not> is_neg fmt y)"
    unfolding fneg_cv [OF assms] by (rule f(3))
  show e: "biased_exponent fmt (fneg fmt y) = biased_exponent fmt y"
    unfolding fneg_cv [OF assms] by (rule f(1))
  show m: "get_mantissa fmt (fneg fmt y) = get_mantissa fmt y"
    unfolding fneg_cv [OF assms] by (rule f(2))
  show v: "valid fmt (fneg fmt y)"
    unfolding fneg_cv [OF assms] by (rule f(5))
  show "get_exponent fmt (fneg fmt y) = get_exponent fmt y" by (simp add: get_exponent_def e)
  show i: "is_inf_or_nan fmt (fneg fmt y) = is_inf_or_nan fmt y" by (simp add: is_inf_or_nan_def e)
  show "is_nan fmt (fneg fmt y) = is_nan fmt y" by (simp add: is_nan_def i m)
  show "is_zero fmt (fneg fmt y) = is_zero fmt y"
    by (simp add: is_zero_iff [OF v] is_zero_iff [OF assms] e m)
  show "smag fmt (fneg fmt y) = smag fmt y" by (simp add: smag_def e m)
  show "fneg fmt (fneg fmt y) = y"
    using valid_create_value [OF assms] by (simp add: fneg_cv [OF v] n e m)
qed

lemma integral_pat_fneg:
  assumes "integral_pat fmt y"
  shows "integral_pat fmt (fneg fmt y)"
proof -
  from assms have v: "valid fmt y" by (simp add: integral_pat_def)
  note f = fneg_fields [OF v]
  have "mid_range fmt (fneg fmt y) = mid_range fmt y" by (simp add: mid_range_def f v)
  moreover have "trim_size_of fmt (fneg fmt y) = trim_size_of fmt y"
    by (simp add: trim_size_of_def f)
  ultimately show ?thesis using assms by (simp add: integral_pat_def f)
qed

lemma ceil_sign:
  assumes "wf_format fmt" "valid fmt x"
  shows "is_neg fmt (ceil fmt rm x) = is_neg fmt x"
proof (cases "is_inf_or_nan fmt x \<or> is_zero fmt x")
  case True
  then show ?thesis by (simp add: ceil_edge)
next
  case False
  then have fin: "\<not> is_inf_or_nan fmt x" and nz: "\<not> is_zero fmt x" by simp_all
  from assms fin show ?thesis
  proof (cases rule: range_cases)
    case high
    then show ?thesis by (simp add: ceil_high)
  next
    case low
    show ?thesis
      by (simp add: ceil_low [OF fin nz low] lit_zero_fields [OF assms(1)] lit_one_fields [OF assms(1)])
  next
    case mid
    show ?thesis
      by (simp add: ceil_mid [OF mid] trunc_bits_fields(1) [OF mid] away_bits_fields(1) [OF mid])
  qed
qed

lemma trunc_sign:
  assumes "wf_format fmt" "valid fmt x"
  shows "is_neg fmt (trunc fmt x) = is_neg fmt x"
proof (cases "is_inf_or_nan fmt x")
  case True
  then show ?thesis by (simp add: trunc_edge)
next
  case False
  from assms False show ?thesis
  proof (cases rule: range_cases)
    case high
    then show ?thesis using False by (simp add: trunc_high)
  next
    case low
    then show ?thesis using False by (simp add: trunc_low lit_zero_fields [OF assms(1)])
  next
    case mid
    show ?thesis by (simp add: trunc_mid [OF mid] trunc_bits_fields(1) [OF mid])
  qed
qed

lemma floor_idem:
  assumes "wf_format fmt" "valid fmt x"
  shows "floor_fp fmt rm2 (floor_fp fmt rm1 x) = floor_fp fmt rm1 x"
proof (cases "is_neg fmt x")
  case True
  let ?c = "ceil fmt rm1 (fneg fmt x)"
  note fx = fneg_fields [OF assms(2)]
  have ic: "integral_pat fmt ?c" using assms(1) fx(4) by (rule integral_pat_results)
  then have vc: "valid fmt ?c" by (simp add: integral_pat_def)
  note fc = fneg_fields [OF vc]
  have "is_neg fmt ?c = is_neg fmt (fneg fmt x)" using assms(1) fx(4) by (rule ceil_sign)
  then have nc: "\<not> is_neg fmt ?c" using True by (simp add: fx(1))
  have fl: "floor_fp fmt rm1 x = fneg fmt ?c" using True by (simp add: floor_fp_def)
  have "floor_fp fmt rm2 (fneg fmt ?c) = fneg fmt (ceil fmt rm2 (fneg fmt (fneg fmt ?c)))"
    using nc by (simp add: floor_fp_def fc(1))
  also have "\<dots> = fneg fmt (ceil fmt rm2 ?c)" by (simp only: fc(10))
  also have "\<dots> = fneg fmt ?c" by (simp only: integral_pat_fixed(2) [OF assms(1) ic])
  finally show ?thesis by (simp only: fl)
next
  case False
  have fl: "floor_fp fmt rm1 x = trunc fmt x" using False by (simp add: floor_fp_def)
  have it: "integral_pat fmt (trunc fmt x)" using assms by (rule integral_pat_results)
  have "\<not> is_neg fmt (trunc fmt x)" using False by (simp add: trunc_sign [OF assms])
  then have "floor_fp fmt rm2 (trunc fmt x) = trunc fmt (trunc fmt x)" by (simp add: floor_fp_def)
  also have "\<dots> = trunc fmt x" by (rule integral_pat_fixed(1) [OF assms(1) it])
  finally show ?thesis by (simp only: fl)
qed

lemma Ints_fval_dvd:
  assumes "fval fmt x \<in> \<int>"
  shows "unit fmt dvd smag fmt x"
proof -
  from assms obtain k :: int where k: "fval fmt x = of_int k" by (auto elim: Ints_cases)
  have u: "(of_nat (unit fmt) :: rat) \<noteq> 0" using unit_pos [of fmt] by simp
  have "(of_int (sval fmt x) :: rat) = of_int k * of_nat (unit fmt)"
    using k u by (simp add: fval_def field_simps)
  also have "\<dots> = of_int (k * int (unit fmt))" by simp
  finally have "sval fmt x = k * int (unit fmt)" by (simp only: of_int_eq_iff)
  then have "int (unit fmt) dvd sval fmt x" by simp
  then have "int (unit fmt) dvd int (smag fmt x)"
    by (simp add: sval_def split: if_splits)
  then show ?thesis by (simp only: int_dvd_int_iff)
qed

lemma integral_value_pat:
  assumes "wf_format fmt" "valid fmt x" "\<not> is_inf_or_nan fmt x" "fval fmt x \<in> \<int>"
  shows "integral_pat fmt x"
proof (cases "is_zero fmt x")
  case True
  then show ?thesis using assms(2) by (auto intro: integral_pat_edge)
next
  case nz: False
  have dv: "unit fmt dvd smag fmt x" using assms(4) by (rule Ints_fval_dvd)
  from assms(1-3) show ?thesis
  proof (cases rule: range_cases)
    case high
    then show ?thesis using assms(2) by (auto intro: integral_pat_edge)
  next
    case low
    have "smag fmt x < unit fmt" using assms(1) low by (rule smag_low)
    moreover have "0 < smag fmt x" using assms(2) nz by (rule smag_nonzero)
    ultimately have "\<not> unit fmt dvd smag fmt x" by (simp add: nat_dvd_not_less)
    then show ?thesis using dv by simp
  next
    case mid
    let ?r = "get_mantissa fmt x mod 2 ^ trim_size_of fmt x"
    let ?p = "(2::nat) ^ (biased_exponent fmt x - 1)"
    note sm = smag_mid [OF mid]
    have "unit fmt dvd int_part fmt x * unit fmt + ?r * ?p" using dv by (simp only: sm(2))
    then have "unit fmt dvd ?r * ?p" by (simp add: dvd_add_right_iff)
    then have "?r * ?p = 0" using sm(3) by (meson dvd_imp_le leD neq0_conv)
    then have "?r = 0" by simp
    then show ?thesis using assms(2) mid by (simp add: integral_pat_def)
  qed
qed

section \<open>Idempotence\<close>

text \<open>
  Claim C8. Each rounding primitive is idempotent: for every pattern \<open>x\<close> (infinities and
  NaNs included) \<open>trunc (trunc x) = trunc x\<close>, and likewise for \<open>ceil\<close>, \<open>floor\<close> and
  \<open>round\<close>, whatever the ambient rounding direction of either call; and
  \<open>round_using_specific_rounding_mode\<close> returns a finite \<open>x\<close> whose value is an integer
  unchanged, whatever the mode.
\<close>

theorem rounding_primitives_idempotent:
  assumes "wf_format fmt" "valid fmt x"
  shows "trunc fmt (trunc fmt x) = trunc fmt x \<and>
    ceil fmt rm2 (ceil fmt rm1 x) = ceil fmt rm1 x \<and>
    floor_fp fmt rm2 (floor_fp fmt rm1 x) = floor_fp fmt rm1 x \<and>
    round_fp fmt rm2 (round_fp fmt rm1 x) = round_fp fmt rm1 x \<and>
    (\<not> is_inf_or_nan fmt x \<and> fval fmt x \<in> \<int> \<longrightarrow>
       round_using_specific_rounding_mode fmt rm1 x rnd = x)"
proof -
  note r = integral_pat_results [OF assms]
  have 1: "trunc fmt (trunc fmt x) = trunc fmt x"
    by (rule integral_pat_fixed(1) [OF assms(1) r(1)])
  have 2: "ceil fmt rm2 (ceil fmt rm1 x) = ceil fmt rm1 x"
    by (rule integral_pat_fixed(2) [OF assms(1) r(2)])
  have 3: "floor_fp fmt rm2 (floor_fp fmt rm1 x) = floor_fp fmt rm1 x"
    using assms by (rule floor_idem)
  have 4: "round_fp fmt rm2 (round_fp fmt rm1 x) = round_fp fmt rm1 x"
    by (rule integral_pat_fixed(3) [OF assms(1) r(3)])
  have 5: "round_using_specific_rounding_mode fmt rm1 x rnd = x"
    if "\<not> is_inf_or_nan fmt x" "fval fmt x \<in> \<int>"
    using integral_pat_fixed(4) [OF assms(1) integral_value_pat [OF assms that]] .
  from 1 2 3 4 5 show ?thesis by blast
qed

theorem rounding_primitives_idempotent_witness:
  "wf_format binary32 \<and> valid binary32 0xC0200000 \<and> valid binary32 0x40400000 \<and>
   trunc binary32 0xC0200000 = 0xC0000000 \<and> trunc binary32 0xC0000000 = 0xC0000000 \<and>
   ceil binary32 FE_TONEAREST 0xC0200000 = 0xC0000000 \<and>
   ceil binary32 FE_UPWARD (ceil binary32 FE_TONEAREST 0xC0200000)
     = ceil binary32 FE_TONEAREST 0xC0200000 \<and>
   floor_fp binary32 FE_TONEAREST 0xC0200000 = 0xC0400000 \<and>
   floor_fp binary32 FE_UPWARD (floor_fp binary32 FE_TONEAREST 0xC0200000)
     = floor_fp binary32 FE_TONEAREST 0xC0200000 \<and>
   round_fp binary32 FE_TONEAREST 0xC0200000 = 0xC0400000 \<and>
   round_fp binary32 FE_UPWARD (round_fp binary32 FE_TONEAREST 0xC0200000)
     = round_fp binary32 FE_TONEAREST 0xC0200000 \<and>
   \<not> is_inf_or_nan binary32 0x40400000 \<and> fval binary32 0x40400000 = 3 \<and>
   fval binary32 0x40400000 \<in> \<int> \<and>
   round_using_specific_rounding_mode binary32 FE_TONEAREST 0x40400000 FP_INT_UPWARD = 0x40400000"
proof -
  have wf: "wf_format binary32" by (simp add: fmt_defs)
  have a: "valid binary32 0xC0200000" by (simp add: eval_defs)
  have b: "valid binary32 0x40400000" by (simp add: eval_defs)
  have f: "\<not> is_inf_or_nan binary32 0x40400000" by (simp add: eval_defs)
  have v: "fval binary32 0x40400000 = 3" by (simp add: eval_defs)
  then have z: "fval binary32 0x40400000 \<in> \<int>" by simp
  have t: "trunc binary32 0xC0200000 = 0xC0000000"
    by (simp add: trunc_def eval_defs)
  have c: "ceil binary32 FE_TONEAREST 0xC0200000 = 0xC0000000"
    by (simp add: ceil_def eval_defs)
  have fl: "floor_fp binary32 FE_TONEAREST 0xC0200000 = 0xC0400000"
    by (simp add: floor_fp_def ceil_def eval_defs)
  have r: "round_fp binary32 FE_TONEAREST 0xC0200000 = 0xC0400000"
    by (simp add: round_fp_def eval_defs)
  note i = rounding_primitives_idempotent [OF wf a, where ?rm1.0 = FE_TONEAREST and ?rm2.0 = FE_UPWARD]
  from i t have t2: "trunc binary32 0xC0000000 = 0xC0000000" by simp
  from i have c2: "ceil binary32 FE_UPWARD (ceil binary32 FE_TONEAREST 0xC0200000)
     = ceil binary32 FE_TONEAREST 0xC0200000"
    and f2: "floor_fp binary32 FE_UPWARD (floor_fp binary32 FE_TONEAREST 0xC0200000)
     = floor_fp binary32 FE_TONEAREST 0xC0200000"
    and r2: "round_fp binary32 FE_UPWARD (round_fp binary32 FE_TONEAREST 0xC0200000)
     = round_fp binary32 FE_TONEAREST 0xC0200000"
    by blast+
  from rounding_primitives_idempotent [OF wf b, where ?rm1.0 = FE_TONEAREST and rnd = FP_INT_UPWARD] f z
  have m: "round_using_specific_rounding_mode binary32 FE_TONEAREST 0x40400000 FP_INT_UPWARD
     = 0x40400000"
    by blast
  from wf a b t t2 c c2 fl f2 r r2 f v z m show ?thesis by blast
qed

lemma integral_pat_dvd:
  assumes "wf_format fmt" "integral_pat fmt y" "\<not> is_inf_or_nan fmt y"
  shows "unit fmt dvd smag fmt y"
proof (cases "is_zero fmt y")
  case True
  from assms(2) have v: "valid fmt y" by (simp add: integral_pat_def)
  have "smag fmt y = 0" using True by (simp add: is_zero_iff [OF v] smag_def)
  then show ?thesis by simp
next
  case nz: False
  from assms(2) have v: "valid fmt y" by (simp add: integral_pat_def)
  from assms(1) v assms(3) show ?thesis
  proof (cases rule: range_cases)
    case high
    have b3: "3 \<le> EXP_BIAS fmt" using assms(1) by (rule wf_bias)
    have E: "FRACTION_LEN fmt + EXP_BIAS fmt \<le> biased_exponent fmt y"
      using high by (simp add: get_exponent_def)
    then have E0: "biased_exponent fmt y \<noteq> 0" using b3 by simp
    have "FRACTION_LEN fmt + EXP_BIAS fmt - 1 \<le> biased_exponent fmt y - 1" using E by simp
    then have "unit fmt dvd 2 ^ (biased_exponent fmt y - 1)"
      unfolding unit_def by (rule le_imp_power_dvd)
    then show ?thesis using E0 by (simp add: smag_def)
  next
    case low
    then have "\<not> int (FRACTION_LEN fmt) \<le> get_exponent fmt y" "\<not> mid_range fmt y"
      by (simp_all add: mid_range_def)
    then show ?thesis using assms(2,3) nz by (simp add: integral_pat_def)
  next
    case mid
    then have "\<not> int (FRACTION_LEN fmt) \<le> get_exponent fmt y" by (simp add: mid_range_def)
    then have "get_mantissa fmt y mod 2 ^ trim_size_of fmt y = 0"
      using assms(2,3) nz by (simp add: integral_pat_def)
    then have "trunc_bits fmt y = y" by (simp add: trunc_bits_fix_iff [OF mid])
    then have "smag fmt y = int_part fmt y * unit fmt" using smag_mid(1) [OF mid] by simp
    then show ?thesis by simp
  qed
qed

lemma integral_pat_fval:
  assumes "wf_format fmt" "integral_pat fmt y" "\<not> is_inf_or_nan fmt y"
  shows "fval fmt y = of_int (if is_neg fmt y then - int (smag fmt y div unit fmt)
                              else int (smag fmt y div unit fmt))"
proof -
  from integral_pat_dvd [OF assms] obtain k where k: "smag fmt y = unit fmt * k" ..
  have u: "(of_nat (unit fmt) :: rat) \<noteq> 0" using unit_pos [of fmt] by simp
  have d: "smag fmt y div unit fmt = k" using unit_pos [of fmt] by (simp add: k)
  show ?thesis using u by (simp add: d fval_def sval_def) (simp add: k)
qed

lemma smag_upper:
  assumes "wf_format fmt" "get_exponent fmt x = int k"
  shows "smag fmt x < 2 ^ Suc k * unit fmt"
proof -
  have b3: "3 \<le> EXP_BIAS fmt" using assms(1) by (rule wf_bias)
  have E: "biased_exponent fmt x = EXP_BIAS fmt + k" using assms(2) by (simp add: get_exponent_def)
  then obtain E' where E': "biased_exponent fmt x = Suc E'" and S: "Suc E' = EXP_BIAS fmt + k"
    using b3 by (cases "biased_exponent fmt x") auto
  have "FRACTION_LEN fmt + EXP_BIAS fmt - 1 + k = FRACTION_LEN fmt + E'" using S b3 by simp
  then have u: "2 ^ k * unit fmt = 2 ^ FRACTION_LEN fmt * 2 ^ E'"
    by (simp add: unit_def power_add [symmetric] add.commute)
  have "smag fmt x = (2 ^ FRACTION_LEN fmt + get_mantissa fmt x) * 2 ^ E'"
    by (simp add: smag_def E')
  also have "\<dots> < (2 ^ FRACTION_LEN fmt + 2 ^ FRACTION_LEN fmt) * 2 ^ E'"
    using get_mantissa_less [of fmt x] by simp
  also have "\<dots> = 2 * (2 ^ k * unit fmt)" by (simp only: u) simp
  finally show ?thesis by simp
qed

lemma smag_lower:
  assumes "wf_format fmt" "get_exponent fmt x = int k"
  shows "smag fmt x = 2 ^ k * unit fmt + get_mantissa fmt x * 2 ^ (biased_exponent fmt x - 1)"
proof -
  have b3: "3 \<le> EXP_BIAS fmt" using assms(1) by (rule wf_bias)
  have E: "biased_exponent fmt x = EXP_BIAS fmt + k" using assms(2) by (simp add: get_exponent_def)
  then obtain E' where E': "biased_exponent fmt x = Suc E'" and S: "Suc E' = EXP_BIAS fmt + k"
    using b3 by (cases "biased_exponent fmt x") auto
  have "FRACTION_LEN fmt + EXP_BIAS fmt - 1 + k = FRACTION_LEN fmt + E'" using S b3 by simp
  then have u: "2 ^ k * unit fmt = 2 ^ FRACTION_LEN fmt * 2 ^ E'"
    by (simp add: unit_def power_add [symmetric] add.commute)
  have "smag fmt x = (2 ^ FRACTION_LEN fmt + get_mantissa fmt x) * 2 ^ E'"
    by (simp add: smag_def E')
  also have "\<dots> = 2 ^ FRACTION_LEN fmt * 2 ^ E' + get_mantissa fmt x * 2 ^ E'"
    by (rule distrib_right)
  finally show ?thesis by (simp only: u E') simp
qed

lemma smag_finite_bound:
  assumes "wf_format fmt" "\<not> is_inf_or_nan fmt x"
  shows "smag fmt x < 2 ^ Suc (EXP_BIAS fmt) * unit fmt"
proof (cases "0 \<le> get_exponent fmt x")
  case True
  then obtain k where k: "get_exponent fmt x = int k" by (metis nonneg_int_cases)
  have "biased_exponent fmt x < EXP_MAX fmt"
    using assms(2) biased_exponent_less [of fmt x]
    by (simp add: is_inf_or_nan_def wf_exp_len [OF assms(1)])
  then have "k \<le> EXP_BIAS fmt" using k by (simp add: get_exponent_def wf_exp_max [OF assms(1)])
  then have "(2::nat) ^ Suc k \<le> 2 ^ Suc (EXP_BIAS fmt)" by (intro power_increasing) simp_all
  then have "2 ^ Suc k * unit fmt \<le> 2 ^ Suc (EXP_BIAS fmt) * unit fmt" by (rule mult_right_mono) simp
  with smag_upper [OF assms(1) k] show ?thesis by (rule less_le_trans)
next
  case False
  then have "smag fmt x < unit fmt" using assms(1) by (intro smag_low) simp_all
  also have "\<dots> \<le> 2 ^ Suc (EXP_BIAS fmt) * unit fmt" by simp
  finally show ?thesis .
qed

lemma rusrm_finite:
  assumes "wf_format fmt" "valid fmt x" "\<not> is_inf_or_nan fmt x"
  shows "\<not> is_inf_or_nan fmt (round_using_specific_rounding_mode fmt rm x rnd)"
proof (cases "is_zero fmt x")
  case True
  then show ?thesis using assms(3) by (simp add: rusrm_edge)
next
  case nz: False
  from assms show ?thesis
  proof (cases rule: range_cases)
    case high
    then show ?thesis using assms(3) by (simp add: rusrm_high)
  next
    case low
    show ?thesis
      by (simp add: rusrm_low [OF assms(3) nz low] lit_zero_fields [OF assms(1)]
          lit_one_fields [OF assms(1)])
  next
    case mid
    show ?thesis
      using assms(3)
      by (simp add: rusrm_mid [OF mid] trunc_bits_fields(6) [OF mid] away_bits_fields(3) [OF mid]
          lit_two_fields [OF assms(1)])
  qed
qed

lemma round_fp_finite:
  assumes "wf_format fmt" "valid fmt x" "\<not> is_inf_or_nan fmt x"
  shows "\<not> is_inf_or_nan fmt (round_fp fmt rm x)"
proof (cases "is_zero fmt x")
  case True
  then show ?thesis using assms(3) by (simp add: round_edge)
next
  case nz: False
  from assms show ?thesis
  proof (cases rule: range_cases)
    case high
    then show ?thesis using assms(3) by (simp add: round_high)
  next
    case low
    show ?thesis
      by (simp add: round_low [OF assms low] lit_zero_fields [OF assms(1)]
          lit_one_fields [OF assms(1)])
  next
    case mid
    show ?thesis
      using assms(3)
      by (simp add: round_mid [OF mid] trunc_bits_fields(6) [OF mid] away_bits_fields(3) [OF mid])
  qed
qed

lemma sdre_env:
  "set_domain_error_and_raise_invalid env =
     env\<lparr>errno := EDOM, excepts := insert FE_INVALID (excepts env)\<rparr>"
  by (simp add: set_domain_error_and_raise_invalid_def raise_except_if_required_def
      set_errno_if_required_def)

lemma int_min_max: "1 \<le> W \<Longrightarrow> INTEGER_MIN W = - (2 ^ (W - 1)) \<and> INTEGER_MAX W = 2 ^ (W - 1) - 1"
  by (simp add: INTEGER_MIN_def INTEGER_MAX_def)

lemma div_unit_less:
  assumes "wf_format fmt" "get_exponent fmt r < int W - 1" "1 \<le> W"
  shows "smag fmt r div unit fmt < 2 ^ (W - 1)"
proof (cases "0 \<le> get_exponent fmt r")
  case True
  then obtain k where k: "get_exponent fmt r = int k" by (metis nonneg_int_cases)
  have "smag fmt r < 2 ^ Suc k * unit fmt" using assms(1) k by (rule smag_upper)
  then have "smag fmt r div unit fmt < 2 ^ Suc k"
    by (simp add: less_mult_imp_div_less)
  also have "(2::nat) ^ Suc k \<le> 2 ^ (W - 1)"
    using assms(2) k by (intro power_increasing) simp_all
  finally show ?thesis .
next
  case False
  then have "smag fmt r < unit fmt" using assms(1) by (intro smag_low) simp_all
  then show ?thesis by simp
qed

lemma div_unit_boundary:
  assumes "wf_format fmt" "get_exponent fmt r = int W - 1" "1 \<le> W" "get_mantissa fmt r = 0"
  shows "smag fmt r div unit fmt = 2 ^ (W - 1)"
proof -
  have k: "get_exponent fmt r = int (W - 1)" using assms(2,3) by simp
  have "smag fmt r = 2 ^ (W - 1) * unit fmt"
    using smag_lower [OF assms(1) k] assms(4) by simp
  then show ?thesis using unit_pos [of fmt] by simp
qed

lemma div_unit_ge:
  assumes "wf_format fmt" "get_exponent fmt r = int k"
  shows "2 ^ k \<le> smag fmt r div unit fmt"
    and "get_mantissa fmt r \<noteq> 0 \<Longrightarrow> integral_pat fmt r \<Longrightarrow> \<not> is_inf_or_nan fmt r \<Longrightarrow>
         2 ^ k < smag fmt r div unit fmt"
proof -
  let ?q = "get_mantissa fmt r * 2 ^ (biased_exponent fmt r - 1)"
  have s: "smag fmt r = 2 ^ k * unit fmt + ?q" using assms by (rule smag_lower)
  then have "2 ^ k * unit fmt \<le> smag fmt r" by simp
  then have "2 ^ k * unit fmt div unit fmt \<le> smag fmt r div unit fmt" by (rule div_le_mono)
  then show le: "2 ^ k \<le> smag fmt r div unit fmt" using unit_pos [of fmt] by simp
  assume m: "get_mantissa fmt r \<noteq> 0" and i: "integral_pat fmt r" and f: "\<not> is_inf_or_nan fmt r"
  from integral_pat_dvd [OF assms(1) i f] obtain c where c: "smag fmt r = unit fmt * c" ..
  have d: "smag fmt r div unit fmt = c" using unit_pos [of fmt] by (simp add: c)
  have "0 < ?q" using m by simp
  then have "2 ^ k * unit fmt < unit fmt * c" using s c by linarith
  then have "unit fmt * 2 ^ k < unit fmt * c" by (simp add: mult.commute)
  then have "2 ^ k < c" by simp
  then show "2 ^ k < smag fmt r div unit fmt" by (simp add: d)
qed

section \<open>Saturation of the integer conversion\<close>

text \<open>
  Claim C6. \<open>round_to_signed_integer\<close> to a \<open>W\<close>-bit signed type first rounds with
  \<open>round\<close>. It sets errno to \<open>EDOM\<close>, raises the invalid-operation exception and returns
  the type's minimum when the sign of the rounded value is negative, else its maximum,
  exactly when the rounded value is infinite or NaN, or its exponent exceeds \<open>W - 1\<close>, or
  its exponent is \<open>W - 1\<close> and it is not the negative boundary value (sign negative,
  mantissa zero): for a finite rounded value that is exactly when its value lies outside
  the range of the type. Otherwise nothing is signalled and the result is the value of the
  rounded pattern, which is an integer of the type; the boundary value converts to the
  type's minimum.
\<close>

theorem round_to_signed_integer_saturates:
  assumes "wf_format fmt" "valid fmt x" "1 \<le> W"
  shows "let r = round_fp fmt (rounding env) x;
             overflow = (is_inf_or_nan fmt r \<or> int W - 1 < get_exponent fmt r \<or>
                (get_exponent fmt r = int W - 1 \<and> \<not> (is_neg fmt r \<and> get_mantissa fmt r = 0)))
         in (overflow \<longrightarrow>
               round_to_signed_integer fmt W x env =
                 (Some (if is_neg fmt r then INTEGER_MIN W else INTEGER_MAX W),
                  env\<lparr>errno := EDOM, excepts := insert FE_INVALID (excepts env)\<rparr>)) \<and>
            (\<not> overflow \<longrightarrow>
               (\<exists>v. round_to_signed_integer fmt W x env = (Some v, env) \<and>
                    of_int v = fval fmt r \<and> INTEGER_MIN W \<le> v \<and> v \<le> INTEGER_MAX W)) \<and>
            (\<not> overflow \<and> get_exponent fmt r = int W - 1 \<longrightarrow>
               round_to_signed_integer fmt W x env = (Some (INTEGER_MIN W), env) \<and>
               fval fmt r = of_int (INTEGER_MIN W)) \<and>
            (\<not> is_inf_or_nan fmt r \<longrightarrow>
               (overflow \<longleftrightarrow>
                  fval fmt r < of_int (INTEGER_MIN W) \<or> of_int (INTEGER_MAX W) < fval fmt r))"
proof -
  define r where "r = round_fp fmt (rounding env) x"
  define overflow where "overflow \<longleftrightarrow> (is_inf_or_nan fmt r \<or> int W - 1 < get_exponent fmt r \<or>
                (get_exponent fmt r = int W - 1 \<and> \<not> (is_neg fmt r \<and> get_mantissa fmt r = 0)))"
  define D where "D = smag fmt r div unit fmt"
  define v where "v = (if is_neg fmt r then - int D else int D)"
  have ip: "integral_pat fmt r" unfolding r_def using assms(1,2) by (rule integral_pat_results)
  have mm: "INTEGER_MIN W = - (2 ^ (W - 1))" "INTEGER_MAX W = 2 ^ (W - 1) - 1"
    using int_min_max [OF assms(3)] by simp_all
  have rt: "round_to_signed_integer fmt W x env = rounded_float_to_signed_integer fmt W r env"
    by (simp add: round_to_signed_integer_def r_def)
  have fv: "\<not> is_inf_or_nan fmt r \<Longrightarrow> fval fmt r = of_int v"
    unfolding v_def D_def using assms(1) ip by (rule integral_pat_fval)
  have ov: "overflow \<Longrightarrow> round_to_signed_integer fmt W x env =
        (Some (if is_neg fmt r then INTEGER_MIN W else INTEGER_MAX W),
         env\<lparr>errno := EDOM, excepts := insert FE_INVALID (excepts env)\<rparr>)"
    unfolding rt overflow_def
    by (auto simp: rounded_float_to_signed_integer_def Let_def sdre_env is_pos_def)
  have cast: "\<not> overflow \<Longrightarrow> round_to_signed_integer fmt W x env = (static_cast_int fmt W r, env)"
    unfolding rt overflow_def
    by (auto simp: rounded_float_to_signed_integer_def Let_def is_pos_def)
  have sc: "\<not> is_inf_or_nan fmt r \<Longrightarrow>
      static_cast_int fmt W r = (if INTEGER_MIN W \<le> v \<and> v \<le> INTEGER_MAX W then Some v else None)"
    by (simp add: static_cast_int_def Let_def v_def D_def)
  have rng: "INTEGER_MIN W \<le> v \<and> v \<le> INTEGER_MAX W" if no: "\<not> overflow"
  proof (cases "get_exponent fmt r = int W - 1")
    case True
    with no have n: "is_neg fmt r" and m: "get_mantissa fmt r = 0" by (simp_all add: overflow_def)
    have "D = 2 ^ (W - 1)" unfolding D_def using assms(1) True assms(3) m by (rule div_unit_boundary)
    then show ?thesis using n by (simp add: v_def mm)
  next
    case False
    with no have "get_exponent fmt r < int W - 1" by (auto simp: overflow_def)
    then have "D < 2 ^ (W - 1)" unfolding D_def using assms(1,3) by (intro div_unit_less)
    then have i: "int D < 2 ^ (W - 1)" by (metis of_nat_less_iff of_nat_numeral of_nat_power)
    have p0: "(0::int) < 2 ^ (W - 1)" by simp
    have "v = - int D \<or> v = int D" by (simp add: v_def)
    then show ?thesis unfolding mm using i p0 by linarith
  qed
  have ok: "\<not> overflow \<Longrightarrow> round_to_signed_integer fmt W x env = (Some v, env)"
    using cast sc rng by (simp add: overflow_def)
  have bd: "round_to_signed_integer fmt W x env = (Some (INTEGER_MIN W), env) \<and>
            fval fmt r = of_int (INTEGER_MIN W)"
    if no: "\<not> overflow" and e: "get_exponent fmt r = int W - 1"
  proof -
    from no e have n: "is_neg fmt r" and m: "get_mantissa fmt r = 0" and f: "\<not> is_inf_or_nan fmt r"
      by (simp_all add: overflow_def)
    have "D = 2 ^ (W - 1)" unfolding D_def using assms(1) e assms(3) m by (rule div_unit_boundary)
    then have "v = INTEGER_MIN W" using n by (simp add: v_def mm)
    then show ?thesis using ok [OF no] fv [OF f] by simp
  qed
  have out: "fval fmt r < of_int (INTEGER_MIN W) \<or> of_int (INTEGER_MAX W) < fval fmt r"
    if o: "overflow" and f: "\<not> is_inf_or_nan fmt r"
  proof -
    from o f have ge: "int W - 1 \<le> get_exponent fmt r" by (auto simp: overflow_def)
    then obtain k where k: "get_exponent fmt r = int k" using assms(3) by (metis nonneg_int_cases order_trans diff_ge_0_iff_ge of_nat_1 of_nat_le_iff)
    have Wk: "W - 1 \<le> k" using ge k assms(3) by simp
    have p: "(2::nat) ^ (W - 1) \<le> 2 ^ k" using Wk by (intro power_increasing) simp_all
    have "v < INTEGER_MIN W \<or> INTEGER_MAX W < v"
    proof (cases "is_neg fmt r")
      case False
      have "2 ^ k \<le> D" unfolding D_def using assms(1) k by (rule div_unit_ge(1))
      with p have "2 ^ (W - 1) \<le> D" by (rule order_trans)
      then have i: "(2::int) ^ (W - 1) \<le> int D" by (metis of_nat_le_iff of_nat_numeral of_nat_power)
      have "v = int D" using False by (simp add: v_def)
      then show ?thesis unfolding mm using i by linarith
    next
      case True
      have "2 ^ (W - 1) < D"
      proof (cases "W - 1 < k")
        case True
        then have "(2::nat) ^ (W - 1) < 2 ^ k" by (intro power_strict_increasing) simp_all
        moreover have "2 ^ k \<le> D" unfolding D_def using assms(1) k by (rule div_unit_ge(1))
        ultimately show ?thesis by (rule less_le_trans)
      next
        case False
        with Wk have kw: "k = W - 1" by simp
        then have "get_exponent fmt r = int W - 1" using k assms(3) by simp
        with o f \<open>is_neg fmt r\<close> have "get_mantissa fmt r \<noteq> 0" by (auto simp: overflow_def)
        then have "2 ^ k < D" unfolding D_def using div_unit_ge(2) [OF assms(1) k] ip f by simp
        then show ?thesis by (simp add: kw)
      qed
      then have i: "(2::int) ^ (W - 1) < int D" by (metis of_nat_less_iff of_nat_numeral of_nat_power)
      have "v = - int D" using True by (simp add: v_def)
      then show ?thesis unfolding mm using i by linarith
    qed
    then show ?thesis by (simp only: fv [OF f] of_int_less_iff)
  qed
  have inr: "\<not> (fval fmt r < of_int (INTEGER_MIN W) \<or> of_int (INTEGER_MAX W) < fval fmt r)"
    if no: "\<not> overflow"
  proof -
    from no have f: "\<not> is_inf_or_nan fmt r" by (simp add: overflow_def)
    show ?thesis using rng [OF no] by (simp only: fv [OF f] of_int_less_iff) simp
  qed
  have 2: "\<not> overflow \<longrightarrow>
       (\<exists>v. round_to_signed_integer fmt W x env = (Some v, env) \<and>
            of_int v = fval fmt r \<and> INTEGER_MIN W \<le> v \<and> v \<le> INTEGER_MAX W)"
  proof
    assume no: "\<not> overflow"
    then have f: "\<not> is_inf_or_nan fmt r" by (simp add: overflow_def)
    show "\<exists>v. round_to_signed_integer fmt W x env = (Some v, env) \<and>
            of_int v = fval fmt r \<and> INTEGER_MIN W \<le> v \<and> v \<le> INTEGER_MAX W"
      using ok [OF no] fv [OF f] rng [OF no] by auto
  qed
  have 4: "\<not> is_inf_or_nan fmt r \<longrightarrow>
       (overflow \<longleftrightarrow> fval fmt r < of_int (INTEGER_MIN W) \<or> of_int (INTEGER_MAX W) < fval fmt r)"
    using out inr by blast
  from ov 2 bd 4 show ?thesis
    unfolding Let_def r_def [symmetric] overflow_def [symmetric] by blast
qed

theorem round_to_signed_integer_saturates_witness:
  "wf_format binary32 \<and> (1::nat) \<le> 32 \<and>
   valid binary32 0x4F000000 \<and> valid binary32 0xCF000000 \<and> valid binary32 0xC0200000 \<and>
   fval binary32 0x4F000000 = 2147483648 \<and>
   round_to_signed_integer binary32 32 0x4F000000
       \<lparr>rounding = FE_TONEAREST, excepts = {}, errno = 0\<rparr> =
     (Some 2147483647, \<lparr>rounding = FE_TONEAREST, excepts = {FE_INVALID}, errno = EDOM\<rparr>) \<and>
   fval binary32 0xCF000000 = - 2147483648 \<and>
   round_to_signed_integer binary32 32 0xCF000000
       \<lparr>rounding = FE_TONEAREST, excepts = {}, errno = 0\<rparr> =
     (Some (- 2147483648), \<lparr>rounding = FE_TONEAREST, excepts = {}, errno = 0\<rparr>) \<and>
   fval binary32 0xC0200000 = - (5 / 2) \<and>
   round_to_signed_integer binary32 32 0xC0200000
       \<lparr>rounding = FE_TONEAREST, excepts = {}, errno = 0\<rparr> =
     (Some (- 3), \<lparr>rounding = FE_TONEAREST, excepts = {}, errno = 0\<rparr>)"
proof -
  let ?env = "\<lparr>rounding = FE_TONEAREST, excepts = {}, errno = 0\<rparr>"
  have wf: "wf_format binary32" by (simp add: fmt_defs)
  have W: "(1::nat) \<le> 32" by simp
  have va: "valid binary32 0x4F000000" and vb: "valid binary32 0xCF000000"
    and vc: "valid binary32 0xC0200000"
    by (simp_all add: eval_defs)
  have fv: "fval binary32 0x4F000000 = 2147483648" "fval binary32 0xCF000000 = - 2147483648"
    "fval binary32 0xC0200000 = - (5 / 2)"
    by (simp_all add: eval_defs)
  have mm: "INTEGER_MAX 32 = 2147483647" "INTEGER_MIN 32 = - 2147483648"
    by (simp_all add: INTEGER_MAX_def INTEGER_MIN_def)
  have ra: "round_fp binary32 FE_TONEAREST 0x4F000000 = 0x4F000000"
    and rb: "round_fp binary32 FE_TONEAREST 0xCF000000 = 0xCF000000"
    and rc: "round_fp binary32 FE_TONEAREST 0xC0200000 = 0xC0400000"
    by (simp_all add: round_fp_def eval_defs)
  have fa: "\<not> is_inf_or_nan binary32 0x4F000000" "get_exponent binary32 0x4F000000 = 31"
    "\<not> is_neg binary32 0x4F000000"
    by (simp_all add: eval_defs)
  have fb: "\<not> is_inf_or_nan binary32 0xCF000000" "get_exponent binary32 0xCF000000 = 31"
    "is_neg binary32 0xCF000000" "get_mantissa binary32 0xCF000000 = 0"
    by (simp_all add: eval_defs)
  have fc: "\<not> is_inf_or_nan binary32 0xC0400000" "get_exponent binary32 0xC0400000 = 1"
    "fval binary32 0xC0400000 = - 3"
    by (simp_all add: eval_defs)
  from round_to_signed_integer_saturates [OF wf va W, of ?env]
  have a: "round_to_signed_integer binary32 32 0x4F000000 ?env =
     (Some 2147483647, \<lparr>rounding = FE_TONEAREST, excepts = {FE_INVALID}, errno = EDOM\<rparr>)"
    by (simp add: Let_def ra fa mm)
  from round_to_signed_integer_saturates [OF wf vb W, of ?env]
  have b: "round_to_signed_integer binary32 32 0xCF000000 ?env = (Some (- 2147483648), ?env)"
    by (simp add: Let_def rb fb mm)
  from round_to_signed_integer_saturates [OF wf vc W, of ?env]
  have "\<exists>v. round_to_signed_integer binary32 32 0xC0200000 ?env = (Some v, ?env) \<and>
      (of_int v :: rat) = - 3"
    by (simp add: Let_def rc fc) blast
  then obtain v where v: "round_to_signed_integer binary32 32 0xC0200000 ?env = (Some v, ?env)"
    and "(of_int v :: rat) = of_int (- 3)" by auto
  then have "v = - 3" by (simp only: of_int_eq_iff)
  with v have c: "round_to_signed_integer binary32 32 0xC0200000 ?env = (Some (- 3), ?env)"
    by simp
  from wf W va vb vc fv a b c show ?thesis by blast
qed

section \<open>The bounds of the fixed-width conversion\<close>

lemma quiet_nan_is_nan:
  assumes "wf_format fmt"
  shows "is_nan fmt (quiet_nan fmt)"
proof -
  from assms obtain f where F: "FRACTION_LEN fmt = Suc f"
    by (cases "FRACTION_LEN fmt") (auto simp: wf_format_def)
  have m: "(2::nat) ^ (FRACTION_LEN fmt - 1) < 2 ^ FRACTION_LEN fmt" by (simp add: F)
  have e: "EXP_MAX fmt < 2 ^ EXP_LEN fmt" by (simp add: EXP_MAX_def)
  note f = create_value_fields [OF m e]
  have 1: "biased_exponent fmt (quiet_nan fmt) = EXP_MAX fmt"
    unfolding quiet_nan_def by (rule f(1))
  have 2: "get_mantissa fmt (quiet_nan fmt) = 2 ^ (FRACTION_LEN fmt - 1)"
    unfolding quiet_nan_def by (rule f(2))
  show ?thesis by (simp add: is_nan_def is_inf_or_nan_def 1 2)
qed

lemma fval_eq_iff: "fval fmt a = fval fmt b \<longleftrightarrow> sval fmt a = sval fmt b"
  using unit_pos [of fmt] by (simp add: fval_def)

lemma not_nan_of_finite: "\<not> is_inf_or_nan fmt x \<Longrightarrow> \<not> is_nan fmt x"
  by (simp add: is_nan_def)

lemma rusrm_changes_value:
  assumes "wf_format fmt" "valid fmt x" "\<not> is_inf_or_nan fmt x"
  shows "round_using_specific_rounding_mode fmt rm x rnd = x \<longleftrightarrow>
         fval fmt (round_using_specific_rounding_mode fmt rm x rnd) = fval fmt x"
proof
  assume "round_using_specific_rounding_mode fmt rm x rnd = x"
  then show "fval fmt (round_using_specific_rounding_mode fmt rm x rnd) = fval fmt x" by simp
next
  let ?r = "round_using_specific_rounding_mode fmt rm x rnd"
  assume eq: "fval fmt ?r = fval fmt x"
  have ip: "integral_pat fmt ?r" using assms(1,2) by (rule integral_pat_results)
  have fin: "\<not> is_inf_or_nan fmt ?r" using assms by (rule rusrm_finite)
  have "fval fmt ?r \<in> \<int>" unfolding integral_pat_fval [OF assms(1) ip fin] by (rule Ints_of_int)
  then have "fval fmt x \<in> \<int>" by (simp only: eq)
  then have "integral_pat fmt x" using assms by (intro integral_value_pat)
  then show "?r = x" using assms(1) by (intro integral_pat_fixed)
qed

lemma round_scaled_le: "round_scaled fmt rm neg n \<le> EXP_MAX fmt * 2 ^ FRACTION_LEN fmt"
  by (simp add: round_scaled_def round_overflow_def Let_def split: fe_round.split)

lemma small_pattern_not_neg:
  assumes "y \<le> EXP_MAX fmt * 2 ^ FRACTION_LEN fmt"
  shows "\<not> is_neg fmt y" and "0 \<le> sval fmt y"
proof -
  have "EXP_MAX fmt * 2 ^ FRACTION_LEN fmt < 2 ^ EXP_LEN fmt * 2 ^ FRACTION_LEN fmt"
    by (intro mult_strict_right_mono) (simp_all add: EXP_MAX_def)
  with assms have "y < 2 ^ EXP_LEN fmt * 2 ^ FRACTION_LEN fmt" by (rule le_less_trans)
  then have "y < SIGN_MASK fmt" by (simp add: SIGN_MASK_def power_add)
  then show n: "\<not> is_neg fmt y" by (simp add: is_neg_def)
  then show "0 \<le> sval fmt y" by (simp add: sval_def)
qed

lemma range_bound_cv:
  assumes "wf_format fmt" "k \<le> EXP_BIAS fmt"
  shows "create_value fmt s ((k + EXP_BIAS fmt) mod 2 ^ TOTAL_LEN fmt) (EXPLICIT_BIT fmt)
           = create_value fmt s (k + EXP_BIAS fmt) 0"
    and "k + EXP_BIAS fmt < EXP_MAX fmt"
    and "smag fmt (create_value fmt s (k + EXP_BIAS fmt) 0) = 2 ^ k * unit fmt"
    and "is_neg fmt (create_value fmt s (k + EXP_BIAS fmt) 0) = s"
    and "\<not> is_inf_or_nan fmt (create_value fmt s (k + EXP_BIAS fmt) 0)"
    and "\<not> is_nan fmt (create_value fmt s (k + EXP_BIAS fmt) 0)"
proof -
  have b3: "3 \<le> EXP_BIAS fmt" using assms(1) by (rule wf_bias)
  show lt: "k + EXP_BIAS fmt < EXP_MAX fmt" using assms(2) by (simp add: wf_exp_max [OF assms(1)])
  then have EL: "k + EXP_BIAS fmt < 2 ^ EXP_LEN fmt" by (simp add: EXP_MAX_def)
  have "(2::nat) ^ EXP_LEN fmt \<le> 2 ^ TOTAL_LEN fmt"
    by (rule power_increasing) (simp_all add: TOTAL_LEN_def)
  with EL have "k + EXP_BIAS fmt < 2 ^ TOTAL_LEN fmt" by (rule less_le_trans)
  then show "create_value fmt s ((k + EXP_BIAS fmt) mod 2 ^ TOTAL_LEN fmt) (EXPLICIT_BIT fmt)
           = create_value fmt s (k + EXP_BIAS fmt) 0"
    by (simp add: EXPLICIT_BIT_def SIG_MASK_def)
  have z: "(0::nat) < 2 ^ FRACTION_LEN fmt" by simp
  note f = create_value_fields [OF z EL]
  obtain c where c: "EXP_BIAS fmt = Suc c" using b3 by (cases "EXP_BIAS fmt") auto
  have u: "unit fmt = 2 ^ FRACTION_LEN fmt * 2 ^ c" by (simp add: unit_def c power_add)
  show "smag fmt (create_value fmt s (k + EXP_BIAS fmt) 0) = 2 ^ k * unit fmt"
    using smag_create_value [OF z EL, of s] by (simp add: c u power_add)
  show "is_neg fmt (create_value fmt s (k + EXP_BIAS fmt) 0) = s" by (rule f(3))
  show i: "\<not> is_inf_or_nan fmt (create_value fmt s (k + EXP_BIAS fmt) 0)"
    using lt by (simp add: is_inf_or_nan_def f(1))
  then show "\<not> is_nan fmt (create_value fmt s (k + EXP_BIAS fmt) 0)" by (simp add: is_nan_def)
qed

lemma range_max_value:
  fixes fmt :: format and rm :: fe_round and k :: nat
  assumes "wf_format fmt" "k \<le> EXP_BIAS fmt"
  defines "range_max \<equiv>
    fsub fmt rm (create_value fmt False ((k + EXP_BIAS fmt) mod 2 ^ TOTAL_LEN fmt) (EXPLICIT_BIT fmt))
      (lit_one fmt False)"
  shows "\<not> is_nan fmt range_max" and "0 \<le> sval fmt range_max"
    and "1 \<le> k \<Longrightarrow> range_max = round_scaled fmt rm False ((2 ^ k - 1) * unit fmt)"
    and "k = 0 \<Longrightarrow> sval fmt range_max = 0"
proof -
  let ?P = "create_value fmt False (k + EXP_BIAS fmt) 0"
  note rb = range_bound_cv [OF assms(1,2)]
  note lf = lit_one_fields [OF assms(1), where s = True]
  have rm: "range_max = fadd fmt rm ?P (lit_one fmt True)"
    by (simp add: range_max_def rb(1) fsub_def lit_one_fields(7) [OF assms(1)]
        fneg_lit_one [OF assms(1)])
  have p1: "(1::nat) \<le> 2 ^ k" by simp
  have s: "sval fmt ?P + sval fmt (lit_one fmt True) = int ((2 ^ k - 1) * unit fmt)"
    using p1 by (simp add: sval_def rb lf diff_mult_distrib of_nat_diff)
  have k0: "sval fmt range_max = 0" if "k = 0"
  proof -
    have "int ((2 ^ k - 1) * unit fmt) = 0" using that by simp
    then have "sval fmt ?P + sval fmt (lit_one fmt True) = 0" by (simp only: s)
    then have "range_max = FPBits_zero fmt (rm = FE_DOWNWARD)"
      by (simp add: rm fadd_def rb lf)
    then show ?thesis by (simp add: FPBits_zero_lit lit_zero_fields [OF assms(1)])
  qed
  have k1: "range_max = round_scaled fmt rm False ((2 ^ k - 1) * unit fmt)" if "1 \<le> k"
  proof -
    have "(2::nat) ^ 1 \<le> 2 ^ k" using that by (intro power_increasing) simp_all
    then have "0 < (2 ^ k - 1) * unit fmt" using unit_pos [of fmt] by simp
    then have pos: "0 < int ((2 ^ k - 1) * unit fmt)" by (simp only: of_nat_0_less_iff)
    have "range_max = sign_bits fmt False + round_scaled fmt rm False (nat \<bar>int ((2 ^ k - 1) * unit fmt)\<bar>)"
      using pos unfolding rm fadd_def Let_def s by (simp add: rb lf del: of_nat_mult)
    then show ?thesis by (simp add: sign_bits_def del: of_nat_mult)
  qed
  show "1 \<le> k \<Longrightarrow> range_max = round_scaled fmt rm False ((2 ^ k - 1) * unit fmt)" by (rule k1)
  show "k = 0 \<Longrightarrow> sval fmt range_max = 0" by (rule k0)
  show "0 \<le> sval fmt range_max"
  proof (cases "k = 0")
    case True
    then show ?thesis by (simp add: k0)
  next
    case False
    then have "range_max = round_scaled fmt rm False ((2 ^ k - 1) * unit fmt)" by (simp add: k1)
    then show ?thesis using small_pattern_not_neg(2) [OF round_scaled_le] by simp
  qed
  show "\<not> is_nan fmt range_max"
  proof (cases "k = 0")
    case True
    have "int ((2 ^ k - 1) * unit fmt) = 0" using True by simp
    then have "sval fmt ?P + sval fmt (lit_one fmt True) = 0" by (simp only: s)
    then have "range_max = FPBits_zero fmt (rm = FE_DOWNWARD)"
      by (simp add: rm fadd_def rb lf)
    then show ?thesis by (simp add: FPBits_zero_lit lit_zero_fields [OF assms(1)])
  next
    case False
    then have r: "range_max = round_scaled fmt rm False ((2 ^ k - 1) * unit fmt)" by (simp add: k1)
    have le: "range_max \<le> EXP_MAX fmt * 2 ^ FRACTION_LEN fmt" unfolding r by (rule round_scaled_le)
    show ?thesis
    proof
      assume n: "is_nan fmt range_max"
      then have e: "biased_exponent fmt range_max = EXP_MAX fmt" and m: "get_mantissa fmt range_max \<noteq> 0"
        by (simp_all add: is_nan_def is_inf_or_nan_def)
      have "range_max div 2 ^ FRACTION_LEN fmt \<le> EXP_MAX fmt"
        using le by (metis div_le_mono nonzero_mult_div_cancel_right power_not_zero zero_neq_numeral)
      moreover have "EXP_MAX fmt \<le> range_max div 2 ^ FRACTION_LEN fmt"
        using e mod_less_eq_dividend [of "range_max div 2 ^ FRACTION_LEN fmt" "2 ^ EXP_LEN fmt"]
        by (simp add: biased_exponent_def)
      ultimately have d: "range_max div 2 ^ FRACTION_LEN fmt = EXP_MAX fmt" by simp
      have "range_max = range_max div 2 ^ FRACTION_LEN fmt * 2 ^ FRACTION_LEN fmt
          + get_mantissa fmt range_max"
        unfolding get_mantissa_def by (rule div_mult_mod_eq [symmetric])
      then have "range_max = EXP_MAX fmt * 2 ^ FRACTION_LEN fmt + get_mantissa fmt range_max"
        by (simp only: d)
      with le m show False by simp
    qed
  qed
qed

lemma round_excepts_exact:
  assumes "m < 2 ^ FRACTION_LEN fmt" "E < EXP_MAX fmt"
  shows "round_excepts fmt rm neg (smag fmt (create_value fmt s E m)) = {}"
proof -
  let ?F = "FRACTION_LEN fmt"
  have EL: "E < 2 ^ EXP_LEN fmt" using assms(2) by (simp add: EXP_MAX_def)
  have fin: "E * 2 ^ ?F + m < EXP_MAX fmt * 2 ^ ?F"
  proof -
    have "E * 2 ^ ?F + m < (E + 1) * 2 ^ ?F" using assms(1) by simp
    also have "\<dots> \<le> EXP_MAX fmt * 2 ^ ?F" using assms(2) by (intro mult_right_mono) auto
    finally show ?thesis .
  qed
  show ?thesis
  proof (cases "E = 0")
    case True
    have sm: "smag fmt (create_value fmt s E m) = m"
      using smag_create_value [OF assms(1) EL] True by simp
    have "bit_len m \<le> ?F" using assms(1) by (rule bit_len_less)
    then have k: "bit_len m - (?F + 1) = 0" by simp
    have ni: "\<not> round_incr rm neg m 0 0"
      by (simp add: round_incr_def split: fe_round.split)
    have b: "m = E * 2 ^ ?F + m" using True by simp
    show ?thesis
      unfolding sm round_excepts_def Let_def k using ni fin b by simp
  next
    case False
    then obtain E' where E': "E = Suc E'" by (cases E) auto
    let ?n = "(2 ^ ?F + m) * 2 ^ E'"
    have sm: "smag fmt (create_value fmt s E m) = ?n"
      using smag_create_value [OF assms(1) EL] E' by simp
    have lo: "2 ^ (?F + E') \<le> ?n" by (simp add: power_add)
    have "?n < (2 ^ ?F + 2 ^ ?F) * 2 ^ E'" using assms(1) by simp
    then have hi: "?n < 2 ^ Suc (?F + E')" by (simp add: power_add)
    have bl: "bit_len ?n = Suc (?F + E')" using lo hi by (rule bit_len_bounds)
    have k: "bit_len ?n - (?F + 1) = E'" by (simp add: bl)
    have q: "?n div 2 ^ E' = 2 ^ ?F + m" by simp
    have r: "?n mod 2 ^ E' = 0" by simp
    have ni: "\<not> round_incr rm neg (2 ^ ?F + m) 0 E'"
      by (simp add: round_incr_def split: fe_round.split)
    have b: "E' * 2 ^ ?F + (2 ^ ?F + m) = E * 2 ^ ?F + m" by (simp add: E')
    show ?thesis
      unfolding sm round_excepts_def Let_def k q r using ni fin b by simp
  qed
qed

lemma pow2_minus_one_split:
  "(2::nat) ^ (a + j) - 1 = (2 ^ a - 1) * 2 ^ j + (2 ^ j - 1)"
proof -
  define A :: nat where "A = 2 ^ a - 1"
  define J :: nat where "J = 2 ^ j - 1"
  have 1: "(2::nat) ^ j = J + 1" and 2: "(2::nat) ^ a = A + 1" by (simp_all add: A_def J_def)
  have "(2::nat) ^ (a + j) = (A + 1) * (J + 1)" by (simp only: power_add 1 2)
  also have "\<dots> = A * (J + 1) + J + 1" by (simp add: algebra_simps)
  finally have "(2::nat) ^ (a + j) - 1 = A * (J + 1) + J" by simp
  then show ?thesis by (simp only: 1 [symmetric]) (simp only: A_def J_def)
qed

lemma pow2_minus_one_div_mod:
  "((2::nat) ^ (a + j) - 1) div 2 ^ j = 2 ^ a - 1"
  "((2::nat) ^ (a + j) - 1) mod 2 ^ j = 2 ^ j - 1"
proof -
  define A :: nat where "A = 2 ^ a - 1"
  define J :: nat where "J = 2 ^ j - 1"
  define B :: nat where "B = 2 ^ j"
  have lt: "J < B" and B0: "0 < B" by (simp_all add: J_def B_def)
  have e: "(2::nat) ^ (a + j) - 1 = A * B + J"
    unfolding A_def B_def J_def by (rule pow2_minus_one_split)
  have "(A * B + J) div B = A" using lt B0 by simp
  then show "((2::nat) ^ (a + j) - 1) div 2 ^ j = 2 ^ a - 1"
    unfolding e [symmetric] by (simp only: A_def B_def)
  have "(A * B + J) mod B = J" using lt B0 by simp
  then show "((2::nat) ^ (a + j) - 1) mod 2 ^ j = 2 ^ j - 1"
    unfolding e [symmetric] by (simp only: J_def B_def)
qed

lemma wide_bound_parts:
  fixes fmt :: format and j c :: nat
  defines "F \<equiv> FRACTION_LEN fmt"
  defines "n \<equiv> ((2::nat) ^ (F + 1 + Suc j) - 1) * 2 ^ (F + c)"
  defines "d \<equiv> F + c + Suc j"
  shows "bit_len n - (F + 1) = d"
    and "n div 2 ^ d = 2 ^ (F + 1) - 1"
    and "n mod 2 ^ d = (2 ^ Suc j - 1) * 2 ^ (F + c)"
proof -
  let ?k = "F + 1 + Suc j"
  have p: "(2::nat) ^ (F + Suc j) \<le> 2 ^ ?k - 1"
  proof -
    have "(2::nat) ^ ?k = 2 ^ (F + Suc j) + 2 ^ (F + Suc j)" by simp
    moreover have "(1::nat) \<le> 2 ^ (F + Suc j)" by simp
    ultimately show ?thesis by linarith
  qed
  have "(2::nat) ^ (F + Suc j) * 2 ^ (F + c) \<le> n"
    unfolding n_def using p by (rule mult_right_mono) simp
  then have lo: "2 ^ (F + Suc j + (F + c)) \<le> n" by (simp only: power_add)
  have "n < 2 ^ ?k * 2 ^ (F + c)"
    unfolding n_def by (rule mult_strict_right_mono) simp_all
  then have "n < 2 ^ (?k + (F + c))" by (simp only: power_add)
  then have hi: "n < 2 ^ Suc (F + Suc j + (F + c))" by simp
  have bl: "bit_len n = Suc (F + Suc j + (F + c))" using lo hi by (rule bit_len_bounds)
  show "bit_len n - (F + 1) = d" by (simp add: bl d_def)
  have dd: "(2::nat) ^ d = 2 ^ Suc j * 2 ^ (F + c)" by (simp add: d_def power_add)
  have "n div 2 ^ d = (2 ^ ?k - 1) div 2 ^ Suc j"
    unfolding n_def dd by simp
  then show "n div 2 ^ d = 2 ^ (F + 1) - 1"
    by (simp only: pow2_minus_one_div_mod)
  have "n mod 2 ^ d = ((2 ^ ?k - 1) mod 2 ^ Suc j) * 2 ^ (F + c)"
    unfolding n_def dd by (simp only: mult_mod_left)
  then show "n mod 2 ^ d = (2 ^ Suc j - 1) * 2 ^ (F + c)"
    by (simp only: pow2_minus_one_div_mod)
qed

lemma wide_bound_round:
  fixes fmt :: format and rm :: fe_round and k :: nat
  assumes "wf_format fmt" "FRACTION_LEN fmt + 1 < k" "k \<le> EXP_BIAS fmt"
  shows "round_excepts fmt rm False ((2 ^ k - 1) * unit fmt) = {FE_INEXACT}"
    and "rm = FE_TONEAREST \<or> rm = FE_UPWARD \<Longrightarrow>
         round_scaled fmt rm False ((2 ^ k - 1) * unit fmt)
           = (k + EXP_BIAS fmt) * 2 ^ FRACTION_LEN fmt"
    and "rm = FE_DOWNWARD \<or> rm = FE_TOWARDZERO \<Longrightarrow>
         round_scaled fmt rm False ((2 ^ k - 1) * unit fmt)
           = (k + EXP_BIAS fmt - 1) * 2 ^ FRACTION_LEN fmt + (2 ^ FRACTION_LEN fmt - 1)"
proof -
  define F where "F = FRACTION_LEN fmt"
  have b3: "3 \<le> EXP_BIAS fmt" using assms(1) by (rule wf_bias)
  then obtain c where c: "EXP_BIAS fmt = Suc c" by (cases "EXP_BIAS fmt") auto
  from assms(2) obtain j where k: "k = F + 1 + Suc j"
    unfolding F_def by (metis Suc_eq_plus1 less_imp_Suc_add add_Suc_right)
  define d where "d = F + c + Suc j"
  define n where "n = ((2::nat) ^ k - 1) * unit fmt"
  define q :: nat where "q = 2 ^ (F + 1) - 1"
  define r :: nat where "r = (2 ^ Suc j - 1) * 2 ^ (F + c)"
  define X :: nat where "X = 2 ^ F"
  define U :: nat where "U = 2 ^ (F + c)"
  define M where "M = EXP_MAX fmt * X"
  have u: "unit fmt = 2 ^ (F + c)" by (simp add: unit_def c F_def)
  have n': "n = ((2::nat) ^ (F + 1 + Suc j) - 1) * 2 ^ (F + c)" by (simp only: n_def k u)
  note wp = wide_bound_parts [of fmt j c, folded F_def, folded n' d_def]
  have kd: "bit_len n - (F + 1) = d" by (rule wp(1))
  have qd: "n div 2 ^ d = q" unfolding q_def by (rule wp(2))
  have rd: "n mod 2 ^ d = r" unfolding r_def by (rule wp(3))
  have X0: "0 < X" by (simp add: X_def)
  have U0: "0 < U" by (simp add: U_def)
  have q2: "q + 1 = 2 * X" by (simp add: q_def X_def)
  have qo: "odd q"
  proof -
    have "even (q + 1)" by (simp only: q2) simp
    then show ?thesis by simp
  qed
  have "(2::nat) ^ 1 \<le> 2 ^ Suc j" by (rule power_increasing) simp_all
  then have "(2::nat) \<le> 2 ^ Suc j" by (simp only: power_one_right)
  then have "0 < (2::nat) ^ Suc j - 1" by linarith
  then have "0 < ((2::nat) ^ Suc j - 1) * 2 ^ (F + c)" by (intro mult_pos_pos) simp_all
  then have "0 < r" by (simp only: r_def)
  then have r0: "r \<noteq> 0" by linarith
  have pd: "(2::nat) ^ d = 2 ^ Suc j * U" by (simp add: d_def U_def power_add)
  have rU: "r = (2 ^ Suc j - 1) * U" by (simp only: r_def U_def)
  have tn: "2 * r > 2 ^ d \<or> (2 * r = 2 ^ d \<and> odd q)"
  proof (cases j)
    case 0
    have "2 * r = 2 ^ d" unfolding pd rU by (simp add: 0)
    with qo show ?thesis by simp
  next
    case (Suc i)
    define Y :: nat where "Y = 2 ^ i"
    have Y0: "0 < Y" by (simp add: Y_def)
    have a: "(2::nat) ^ Suc j = 4 * Y" by (simp add: Suc Y_def)
    have "4 * Y * U < 2 * ((4 * Y - 1) * U)"
    proof -
      have "4 * Y < 2 * (4 * Y - 1)" using Y0 by linarith
      then have "4 * Y * U < 2 * (4 * Y - 1) * U" using U0 by (rule mult_strict_right_mono)
      then show ?thesis by (simp only: mult.assoc)
    qed
    then have "2 ^ d < 2 * r" by (simp only: pd rU a)
    then show ?thesis by simp
  qed
  have kb: "k + EXP_BIAS fmt = d + 2" by (simp add: k c d_def)
  have lt: "k + EXP_BIAS fmt < EXP_MAX fmt"
    using assms(3) by (simp add: wf_exp_max [OF assms(1)])
  have "(k + EXP_BIAS fmt) * X < EXP_MAX fmt * X"
    using lt X0 by (rule mult_strict_right_mono)
  then have top: "(d + 2) * X < M" by (simp only: kb M_def)
  have inc: "d * X + q + 1 = (d + 2) * X"
    using q2 by (simp add: add_mult_distrib)
  have noinc: "d * X + q = (d + 1) * X + (X - 1)"
    using q2 X0 by (simp add: add_mult_distrib)
  have ninc_lt: "d * X + q < M" using inc top by linarith
  have inc_lt: "d * X + q + 1 < M" using inc top by linarith
  have ex: "round_excepts fmt rm False n =
      (if M \<le> d * X + q + (if round_incr rm False q r d then 1 else 0)
       then {FE_OVERFLOW, FE_INEXACT} else if r \<noteq> 0 then {FE_INEXACT} else {})"
    unfolding round_excepts_def Let_def F_def [symmetric] kd qd rd X_def [symmetric] M_def
    by (rule refl)
  have rs: "round_scaled fmt rm False n =
      (if M \<le> d * X + q + (if round_incr rm False q r d then 1 else 0)
       then round_overflow fmt rm False
       else d * X + q + (if round_incr rm False q r d then 1 else 0))"
    unfolding round_scaled_def Let_def F_def [symmetric] kd qd rd X_def [symmetric] M_def
    by (rule refl)
  have nov: "\<not> M \<le> d * X + q + (if round_incr rm False q r d then 1 else 0)"
    using ninc_lt inc_lt by simp
  show "round_excepts fmt rm False ((2 ^ k - 1) * unit fmt) = {FE_INEXACT}"
    unfolding n_def [symmetric] ex using nov r0 by (simp only: if_False if_True not_False_eq_True)
  show "round_scaled fmt rm False ((2 ^ k - 1) * unit fmt)
           = (k + EXP_BIAS fmt) * 2 ^ FRACTION_LEN fmt"
    if "rm = FE_TONEAREST \<or> rm = FE_UPWARD"
  proof -
    have i: "round_incr rm False q r d" using that tn r0 by (auto simp: round_incr_def)
    have "round_scaled fmt rm False n = d * X + q + 1"
      unfolding rs using nov i by (simp only: if_True if_False)
    then have "round_scaled fmt rm False n = (d + 2) * X" by (simp only: inc)
    then show ?thesis unfolding n_def kb X_def F_def .
  qed
  show "round_scaled fmt rm False ((2 ^ k - 1) * unit fmt)
           = (k + EXP_BIAS fmt - 1) * 2 ^ FRACTION_LEN fmt + (2 ^ FRACTION_LEN fmt - 1)"
    if "rm = FE_DOWNWARD \<or> rm = FE_TOWARDZERO"
  proof -
    have i: "\<not> round_incr rm False q r d" using that by (auto simp: round_incr_def)
    have "round_scaled fmt rm False n = d * X + q"
      unfolding rs using nov i by (simp only: if_True if_False add_0_right)
    then have e: "round_scaled fmt rm False n = (d + 1) * X + (X - 1)" by (simp only: noinc)
    have k1: "k + EXP_BIAS fmt - 1 = d + 1" using kb by simp
    show ?thesis using e unfolding n_def k1 X_def F_def .
  qed
qed

lemma fval_less_int: "fval fmt a < of_int z \<longleftrightarrow> sval fmt a < z * int (unit fmt)"
proof -
  have "(of_int (sval fmt a) :: rat) < of_int (z * int (unit fmt))
      \<longleftrightarrow> sval fmt a < z * int (unit fmt)"
    by (rule of_int_less_iff)
  then show ?thesis using unit_pos [of fmt] by (simp add: fval_def divide_less_eq)
qed

lemma int_less_fval: "of_int z < fval fmt a \<longleftrightarrow> z * int (unit fmt) < sval fmt a"
proof -
  have "(of_int (z * int (unit fmt)) :: rat) < of_int (sval fmt a)
      \<longleftrightarrow> z * int (unit fmt) < sval fmt a"
    by (rule of_int_less_iff)
  then show ?thesis using unit_pos [of fmt] by (simp add: fval_def less_divide_eq)
qed

lemma pow2_minus_one_pattern:
  assumes "wf_format fmt" "1 \<le> k" "k \<le> FRACTION_LEN fmt + 1"
  obtains E m where "m < 2 ^ FRACTION_LEN fmt" "E < EXP_MAX fmt"
    "smag fmt (create_value fmt False E m) = (2 ^ k - 1) * unit fmt"
proof -
  from assms(2) obtain j where k: "k = Suc j" by (cases k) auto
  with assms(3) obtain u where F: "FRACTION_LEN fmt = j + u" by (metis Suc_eq_plus1 add_le_cancel_right le_Suc_ex)
  have b3: "3 \<le> EXP_BIAS fmt" using assms(1) by (rule wf_bias)
  then obtain c where c: "EXP_BIAS fmt = Suc c" by (cases "EXP_BIAS fmt") auto
  have Fb: "FRACTION_LEN fmt \<le> EXP_BIAS fmt" using assms(1) by (simp add: wf_format_def)
  let ?m = "((2::nat) ^ j - 1) * 2 ^ u" and ?E = "EXP_BIAS fmt + j"
  have p1: "(1::nat) \<le> 2 ^ j" by simp
  have "?m < 2 ^ j * (2 ^ u :: nat)" using p1 by (intro mult_strict_right_mono) simp_all
  then have m: "?m < 2 ^ FRACTION_LEN fmt" by (simp add: F power_add)
  have E: "?E < EXP_MAX fmt" using Fb F by (simp add: wf_exp_max [OF assms(1)])
  then have EL: "?E < 2 ^ EXP_LEN fmt" by (simp add: EXP_MAX_def)
  have u: "unit fmt = 2 ^ u * (2 ^ j * 2 ^ c)" by (simp add: unit_def F c power_add)
  have s1: "2 ^ FRACTION_LEN fmt + ?m = (2 * 2 ^ j - 1) * (2 ^ u :: nat)"
    using p1 by (simp add: F power_add diff_mult_distrib)
  have "smag fmt (create_value fmt False ?E ?m) = (2 ^ FRACTION_LEN fmt + ?m) * 2 ^ (c + j)"
    using smag_create_value [OF m EL, of False] by (simp add: c)
  also have "\<dots> = (2 * 2 ^ j - 1) * 2 ^ u * 2 ^ (c + j)" by (simp only: s1)
  also have "\<dots> = (2 ^ k - 1) * unit fmt" by (simp add: k u power_add mult_ac)
  finally have "smag fmt (create_value fmt False ?E ?m) = (2 ^ k - 1) * unit fmt" .
  with m E show thesis by (rule that)
qed

lemma range_max_exact:
  fixes fmt :: format and rm :: fe_round and k :: nat
  assumes "wf_format fmt" "k \<le> EXP_BIAS fmt" "k \<le> FRACTION_LEN fmt + 1"
  shows "sval fmt (fsub fmt rm
      (create_value fmt False ((k + EXP_BIAS fmt) mod 2 ^ TOTAL_LEN fmt) (EXPLICIT_BIT fmt))
      (lit_one fmt False)) = (2 ^ k - 1) * int (unit fmt)"
proof (cases "k = 0")
  case True
  then show ?thesis using range_max_value(4) [OF assms(1,2), of rm] by simp
next
  case False
  then have k1: "1 \<le> k" by simp
  from assms(1) k1 assms(3) obtain E m where m: "m < 2 ^ FRACTION_LEN fmt" and E: "E < EXP_MAX fmt"
    and sm: "smag fmt (create_value fmt False E m) = (2 ^ k - 1) * unit fmt"
    by (rule pow2_minus_one_pattern)
  have EL: "E < 2 ^ EXP_LEN fmt" using E by (simp add: EXP_MAX_def)
  have "fsub fmt rm
      (create_value fmt False ((k + EXP_BIAS fmt) mod 2 ^ TOTAL_LEN fmt) (EXPLICIT_BIT fmt))
      (lit_one fmt False) = round_scaled fmt rm False (smag fmt (create_value fmt False E m))"
    using range_max_value(3) [OF assms(1,2) k1, of rm] by (simp only: sm)
  also have "\<dots> = create_value fmt False E m"
    unfolding round_scaled_exact [OF m E]
    by (simp add: create_value_in_range [OF m EL] sign_bits_def)
  finally have r: "fsub fmt rm
      (create_value fmt False ((k + EXP_BIAS fmt) mod 2 ^ TOTAL_LEN fmt) (EXPLICIT_BIT fmt))
      (lit_one fmt False) = create_value fmt False E m" .
  have p1: "(1::nat) \<le> 2 ^ k" by simp
  have "sval fmt (create_value fmt False E m) = int ((2 ^ k - 1) * unit fmt)"
    by (simp add: sval_def create_value_fields(3) [OF m EL] sm del: of_nat_mult)
  also have "\<dots> = (2 ^ k - 1) * int (unit fmt)" using p1 by (simp add: of_nat_diff)
  finally show ?thesis by (simp only: r)
qed

lemma rusrm_value_bound:
  assumes "wf_format fmt" "valid fmt x" "\<not> is_inf_or_nan fmt x" "EXP_BIAS fmt < k"
  shows "- (2 ^ k) * int (unit fmt) \<le> sval fmt (round_using_specific_rounding_mode fmt rm x rnd)"
    and "sval fmt (round_using_specific_rounding_mode fmt rm x rnd) \<le> (2 ^ k - 1) * int (unit fmt)"
proof -
  let ?r = "round_using_specific_rounding_mode fmt rm x rnd"
  have ip: "integral_pat fmt ?r" using assms(1,2) by (rule integral_pat_results)
  have fin: "\<not> is_inf_or_nan fmt ?r" using assms(1-3) by (rule rusrm_finite)
  from integral_pat_dvd [OF assms(1) ip fin] obtain c where c: "smag fmt ?r = unit fmt * c" ..
  have "unit fmt * c < unit fmt * 2 ^ Suc (EXP_BIAS fmt)"
    using smag_finite_bound [OF assms(1) fin] by (simp add: c mult.commute)
  then have "c < 2 ^ Suc (EXP_BIAS fmt)" by simp
  also have "(2::nat) ^ Suc (EXP_BIAS fmt) \<le> 2 ^ k" using assms(4) by (intro power_increasing) simp_all
  finally have "c < 2 ^ k" .
  then have "int c < 2 ^ k" by (metis of_nat_less_iff of_nat_numeral of_nat_power)
  then have ci: "int c \<le> 2 ^ k - 1" by simp
  define A where "A = int c * int (unit fmt)"
  define B where "B = (2 ^ k - 1) * int (unit fmt)"
  define C where "C = 2 ^ k * int (unit fmt)"
  have u0: "0 \<le> int (unit fmt)" by simp
  have le: "A \<le> B" unfolding A_def B_def using ci u0 by (rule mult_right_mono)
  have sm: "int (smag fmt ?r) = A" by (simp add: c A_def)
  have sv: "sval fmt ?r = A \<or> sval fmt ?r = - A" by (simp add: sval_def sm)
  have BC: "B \<le> C" unfolding B_def C_def by (rule mult_right_mono) simp_all
  have A0: "0 \<le> A" unfolding A_def by simp
  have "- C \<le> sval fmt ?r" using sv le BC A0 by linarith
  then show "- (2 ^ k) * int (unit fmt) \<le> sval fmt ?r" by (simp add: C_def)
  have "sval fmt ?r \<le> B" using sv le BC A0 by linarith
  then show "sval fmt ?r \<le> (2 ^ k - 1) * int (unit fmt)" by (simp add: B_def)
qed

lemma fadd_excepts_away:
  assumes "mid_range fmt x" "\<not> is_neg fmt x"
  shows "fadd_excepts fmt rm (trunc_bits fmt x) (lit_one fmt False) = {}"
proof -
  from assms(1) have wf: "wf_format fmt" by (simp add: mid_range_def)
  note tf = trunc_bits_fields [OF assms(1)]
  note lf = lit_one_fields [OF wf]
  from assms(1) obtain E2 m2 where
    m2: "m2 < 2 ^ FRACTION_LEN fmt" and E2: "E2 < EXP_MAX fmt" and
    cv: "away_bits fmt x = create_value fmt (is_neg fmt x) E2 m2" and
    sm: "smag fmt (away_bits fmt x) = (int_part fmt x + 1) * unit fmt"
    by (rule away_bits_cv)
  let ?s = "sval fmt (trunc_bits fmt x) + sval fmt (lit_one fmt False)"
  have s: "?s = int ((int_part fmt x + 1) * unit fmt)"
    using assms(2) by (simp add: sval_pos tf lf smag_mid(1) [OF assms(1)])
  have up: "0 < unit fmt" by (simp add: unit_def)
  have s0: "?s \<noteq> 0" "\<not> ?s < 0" using up by (simp_all add: s del: of_nat_mult of_nat_add)
  have n: "nat \<bar>?s\<bar> = smag fmt (create_value fmt (is_neg fmt x) E2 m2)"
    unfolding cv [symmetric] sm s by (simp only: abs_minus_cancel abs_of_nat nat_int)
  have "fadd_excepts fmt rm (trunc_bits fmt x) (lit_one fmt False) =
      round_excepts fmt rm False (nat \<bar>?s\<bar>)"
    using s0 by (simp add: fadd_excepts_def tf lf Let_def)
  also have "\<dots> = {}"
    unfolding n by (rule round_excepts_exact [OF m2 E2])
  finally show ?thesis .
qed

lemma fsub_excepts_away:
  assumes "mid_range fmt x" "is_neg fmt x"
  shows "fsub_excepts fmt rm (trunc_bits fmt x) (lit_one fmt False) = {}"
proof -
  from assms(1) have wf: "wf_format fmt" by (simp add: mid_range_def)
  note tf = trunc_bits_fields [OF assms(1)]
  note lf = lit_one_fields [OF wf]
  from assms(1) obtain E2 m2 where
    m2: "m2 < 2 ^ FRACTION_LEN fmt" and E2: "E2 < EXP_MAX fmt" and
    cv: "away_bits fmt x = create_value fmt (is_neg fmt x) E2 m2" and
    sm: "smag fmt (away_bits fmt x) = (int_part fmt x + 1) * unit fmt"
    by (rule away_bits_cv)
  let ?s = "sval fmt (trunc_bits fmt x) + sval fmt (lit_one fmt True)"
  have s: "?s = - int ((int_part fmt x + 1) * unit fmt)"
    using assms(2) by (simp add: sval_neg tf lf smag_mid(1) [OF assms(1)])
  have up: "0 < unit fmt" by (simp add: unit_def)
  have s0: "?s \<noteq> 0" "?s < 0" using up by (simp_all add: s del: of_nat_mult of_nat_add)
  have n: "nat \<bar>?s\<bar> = smag fmt (create_value fmt (is_neg fmt x) E2 m2)"
    unfolding cv [symmetric] sm s by (simp only: abs_minus_cancel abs_of_nat nat_int)
  have "fsub_excepts fmt rm (trunc_bits fmt x) (lit_one fmt False) =
      round_excepts fmt rm True (nat \<bar>?s\<bar>)"
    using s0 by (simp add: fsub_excepts_def fneg_lit_one [OF wf] fadd_excepts_def tf lf Let_def)
  also have "\<dots> = {}"
    unfolding n by (rule round_excepts_exact [OF m2 E2])
  finally show ?thesis .
qed

lemma range_max_flags:
  fixes fmt :: format and rm :: fe_round and k :: nat
  assumes "wf_format fmt" "k \<le> EXP_BIAS fmt"
  shows "fsub_excepts fmt rm
      (create_value fmt False ((k + EXP_BIAS fmt) mod 2 ^ TOTAL_LEN fmt) (EXPLICIT_BIT fmt))
      (lit_one fmt False) = (if FRACTION_LEN fmt + 1 < k then {FE_INEXACT} else {})"
proof -
  let ?P = "create_value fmt False (k + EXP_BIAS fmt) 0"
  note rb = range_bound_cv [OF assms(1,2)]
  note lf = lit_one_fields [OF assms(1), where s = True]
  have fe: "fsub_excepts fmt rm
      (create_value fmt False ((k + EXP_BIAS fmt) mod 2 ^ TOTAL_LEN fmt) (EXPLICIT_BIT fmt))
      (lit_one fmt False) = fadd_excepts fmt rm ?P (lit_one fmt True)"
    by (simp add: rb(1) fsub_excepts_def lit_one_fields(7) [OF assms(1)]
        fneg_lit_one [OF assms(1)])
  have p1: "(1::nat) \<le> 2 ^ k" by simp
  have s: "sval fmt ?P + sval fmt (lit_one fmt True) = int ((2 ^ k - 1) * unit fmt)"
    using p1 by (simp add: sval_def rb lf diff_mult_distrib of_nat_diff)
  show ?thesis
  proof (cases "k = 0")
    case True
    have "int ((2 ^ k - 1) * unit fmt) = 0" using True by simp
    then have "sval fmt ?P + sval fmt (lit_one fmt True) = 0" by (simp only: s)
    then have "fadd_excepts fmt rm ?P (lit_one fmt True) = {}"
      by (simp add: fadd_excepts_def rb lf)
    then show ?thesis unfolding fe using True by simp
  next
    case False
    then have k1: "1 \<le> k" by simp
    have "(2::nat) ^ 1 \<le> 2 ^ k" using k1 by (intro power_increasing) simp_all
    then have "0 < (2 ^ k - 1) * unit fmt" using unit_pos [of fmt] by simp
    then have pos: "0 < int ((2 ^ k - 1) * unit fmt)" by (simp only: of_nat_0_less_iff)
    have re: "fadd_excepts fmt rm ?P (lit_one fmt True) =
        round_excepts fmt rm False (nat \<bar>int ((2 ^ k - 1) * unit fmt)\<bar>)"
      using pos unfolding fadd_excepts_def Let_def s by (simp add: rb lf del: of_nat_mult)
    have re': "fadd_excepts fmt rm ?P (lit_one fmt True) =
        round_excepts fmt rm False ((2 ^ k - 1) * unit fmt)"
      unfolding re by (simp del: of_nat_mult)
    show ?thesis
    proof (cases "FRACTION_LEN fmt + 1 < k")
      case True
      then show ?thesis
        unfolding fe re' wide_bound_round(1) [OF assms(1) True assms(2)] by simp
    next
      case nw: False
      then have kF: "k \<le> FRACTION_LEN fmt + 1" by simp
      from assms(1) k1 kF obtain E m where m: "m < 2 ^ FRACTION_LEN fmt"
        and E: "E < EXP_MAX fmt"
        and sm: "smag fmt (create_value fmt False E m) = (2 ^ k - 1) * unit fmt"
        by (rule pow2_minus_one_pattern)
      have "round_excepts fmt rm False ((2 ^ k - 1) * unit fmt) = {}"
        unfolding sm [symmetric] by (rule round_excepts_exact [OF m E])
      then show ?thesis using nw by (simp add: fe re')
    qed
  qed
qed

lemma range_max_wide:
  fixes fmt :: format and rm :: fe_round and k :: nat
  assumes "wf_format fmt" "FRACTION_LEN fmt + 1 < k" "k \<le> EXP_BIAS fmt"
  defines "range_max \<equiv>
    fsub fmt rm (create_value fmt False ((k + EXP_BIAS fmt) mod 2 ^ TOTAL_LEN fmt) (EXPLICIT_BIT fmt))
      (lit_one fmt False)"
  shows "rm = FE_TONEAREST \<or> rm = FE_UPWARD \<Longrightarrow>
           sval fmt range_max = 2 ^ k * int (unit fmt)"
    and "rm = FE_DOWNWARD \<or> rm = FE_TOWARDZERO \<Longrightarrow>
           sval fmt range_max
             = int ((2 ^ (FRACTION_LEN fmt + 1) - 1) * 2 ^ (k + EXP_BIAS fmt - 2))"
proof -
  have k1: "1 \<le> k" using assms(2) by simp
  have rs: "range_max = round_scaled fmt rm False ((2 ^ k - 1) * unit fmt)"
    unfolding range_max_def using assms(1,3) k1 by (rule range_max_value(3))
  note rb = range_bound_cv [OF assms(1,3)]
  have z: "(0::nat) < 2 ^ FRACTION_LEN fmt" by simp
  have EL: "k + EXP_BIAS fmt < 2 ^ EXP_LEN fmt" using rb(2) by (simp add: EXP_MAX_def)
  show "sval fmt range_max = 2 ^ k * int (unit fmt)" if "rm = FE_TONEAREST \<or> rm = FE_UPWARD"
  proof -
    have "range_max = (k + EXP_BIAS fmt) * 2 ^ FRACTION_LEN fmt"
      unfolding rs using assms(1-3) that by (rule wide_bound_round(2))
    also have "\<dots> = create_value fmt False (k + EXP_BIAS fmt) 0"
      by (simp add: create_value_in_range [OF z EL] sign_bits_def)
    finally have "range_max = create_value fmt False (k + EXP_BIAS fmt) 0" .
    then show ?thesis by (simp add: sval_def rb)
  qed
  show "sval fmt range_max
      = int ((2 ^ (FRACTION_LEN fmt + 1) - 1) * 2 ^ (k + EXP_BIAS fmt - 2))"
    if "rm = FE_DOWNWARD \<or> rm = FE_TOWARDZERO"
  proof -
    let ?m = "(2::nat) ^ FRACTION_LEN fmt - 1" and ?E = "k + EXP_BIAS fmt - 1"
    have m: "?m < 2 ^ FRACTION_LEN fmt" by simp
    have EL': "?E < 2 ^ EXP_LEN fmt" using EL by simp
    have E0: "?E \<noteq> 0" using k1 wf_bias [OF assms(1)] by simp
    have "range_max = ?E * 2 ^ FRACTION_LEN fmt + ?m"
      unfolding rs using assms(1-3) that by (rule wide_bound_round(3))
    also have "\<dots> = create_value fmt False ?E ?m"
      by (simp only: create_value_in_range [OF m EL'] sign_bits_def if_False add_0)
    finally have r: "range_max = create_value fmt False ?E ?m" .
    have a: "2 ^ FRACTION_LEN fmt + ?m = (2::nat) ^ (FRACTION_LEN fmt + 1) - 1" by simp
    have b: "?E - 1 = k + EXP_BIAS fmt - 2" by simp
    have "smag fmt range_max = (2 ^ FRACTION_LEN fmt + ?m) * 2 ^ (?E - 1)"
      unfolding r using smag_create_value [OF m EL', of False] E0 by (simp only: if_False)
    then have sm: "smag fmt range_max
        = (2 ^ (FRACTION_LEN fmt + 1) - 1) * 2 ^ (k + EXP_BIAS fmt - 2)"
      by (simp only: a b)
    have "\<not> is_neg fmt range_max"
      unfolding r by (simp only: create_value_fields(3) [OF m EL'] not_False_eq_True)
    then have "sval fmt range_max = int (smag fmt range_max)" by (rule sval_pos)
    then show ?thesis by (simp only: sm)
  qed
qed

lemma pattern_gap:
  assumes "(2 ^ (FRACTION_LEN fmt + 1) - 1) * 2 ^ d < smag fmt r"
  shows "2 ^ (FRACTION_LEN fmt + 1) * 2 ^ d \<le> smag fmt r"
proof -
  define X :: nat where "X = 2 ^ FRACTION_LEN fmt"
  define m where "m = get_mantissa fmt r"
  have X0: "0 < X" by (simp add: X_def)
  have mX: "m < X" unfolding m_def X_def by (rule get_mantissa_less)
  have XX: "(2::nat) ^ (FRACTION_LEN fmt + 1) = 2 * X" by (simp add: X_def)
  have D1: "(1::nat) \<le> 2 ^ d" by simp
  from assms have a: "(2 * X - 1) * 2 ^ d < smag fmt r" by (simp only: XX)
  have big: "X \<le> (2 * X - 1) * 2 ^ d"
  proof -
    have "X \<le> 2 * X - 1" using X0 by linarith
    also have "\<dots> = (2 * X - 1) * 1" by simp
    also have "\<dots> \<le> (2 * X - 1) * 2 ^ d" using D1 by (rule mult_left_mono) simp
    finally show ?thesis .
  qed
  show ?thesis
  proof (cases "biased_exponent fmt r")
    case 0
    then have "smag fmt r = m" by (simp add: smag_def m_def)
    with mX big a show ?thesis by linarith
  next
    case (Suc E')
    then have sm: "smag fmt r = (X + m) * 2 ^ E'" by (simp add: smag_def m_def X_def)
    have le: "X + m \<le> 2 * X - 1" using mX by linarith
    show ?thesis
    proof (cases "E' \<le> d")
      case True
      have "(X + m) * 2 ^ E' \<le> (2 * X - 1) * 2 ^ E'" using le by (rule mult_right_mono) simp
      also have "\<dots> \<le> (2 * X - 1) * 2 ^ d"
        by (rule mult_left_mono) (use True in \<open>simp_all add: power_increasing\<close>)
      finally have "smag fmt r \<le> (2 * X - 1) * 2 ^ d" by (simp only: sm)
      with a show ?thesis by linarith
    next
      case False
      then have "Suc d \<le> E'" by simp
      then have "(2::nat) ^ Suc d \<le> 2 ^ E'" by (intro power_increasing) simp_all
      then have "X * 2 ^ Suc d \<le> X * 2 ^ E'" by (rule mult_left_mono) simp
      also have "\<dots> \<le> (X + m) * 2 ^ E'" by (rule mult_right_mono) simp_all
      finally have "X * 2 ^ Suc d \<le> smag fmt r" by (simp only: sm)
      moreover have "X * 2 ^ Suc d = 2 * X * 2 ^ d" by simp
      ultimately show ?thesis by (simp only: XX)
    qed
  qed
qed

lemma invalid_nan_eq:
  "invalid_nan fmt env = (quiet_nan fmt, env\<lparr>excepts := insert FE_INVALID (excepts env)\<rparr>)"
  by (simp add: invalid_nan_def raise_except_if_required_def)

lemma range_compare:
  fixes fmt :: format and rm :: fe_round and k :: nat
  assumes "wf_format fmt" "k \<le> EXP_BIAS fmt" "k \<le> FRACTION_LEN fmt + 1" "\<not> is_nan fmt r"
  shows "flt fmt r (create_value fmt True ((k + EXP_BIAS fmt) mod 2 ^ TOTAL_LEN fmt)
            (EXPLICIT_BIT fmt)) \<longleftrightarrow> fval fmt r < - (2 ^ k)"
    and "fgt fmt r (fsub fmt rm
            (create_value fmt False ((k + EXP_BIAS fmt) mod 2 ^ TOTAL_LEN fmt) (EXPLICIT_BIT fmt))
            (lit_one fmt False)) \<longleftrightarrow> 2 ^ k - 1 < fval fmt r"
proof -
  let ?re = "(k + EXP_BIAS fmt) mod 2 ^ TOTAL_LEN fmt"
  let ?min = "create_value fmt True ?re (EXPLICIT_BIT fmt)"
  let ?max = "fsub fmt rm (create_value fmt False ?re (EXPLICIT_BIT fmt)) (lit_one fmt False)"
  note rb = range_bound_cv [OF assms(1,2)]
  have smin: "sval fmt ?min = - (2 ^ k) * int (unit fmt)"
    by (simp add: rb sval_def)
  have nmin: "\<not> is_nan fmt ?min" by (simp add: rb)
  have nmax: "\<not> is_nan fmt ?max" using assms(1,2) by (rule range_max_value(1))
  have smax: "sval fmt ?max = (2 ^ k - 1) * int (unit fmt)"
    using assms(1-3) by (rule range_max_exact)
  have "fval fmt r < of_int (- (2 ^ k)) \<longleftrightarrow> sval fmt r < - (2 ^ k) * int (unit fmt)"
    by (rule fval_less_int)
  then show "flt fmt r ?min \<longleftrightarrow> fval fmt r < - (2 ^ k)"
    using assms(4) nmin by (simp add: flt_def smin)
  have "of_int (2 ^ k - 1) < fval fmt r \<longleftrightarrow> (2 ^ k - 1) * int (unit fmt) < sval fmt r"
    by (rule int_less_fval)
  then show "fgt fmt r ?max \<longleftrightarrow> 2 ^ k - 1 < fval fmt r"
    using assms(4) nmax by (simp add: fgt_def flt_def smax)
qed

lemma zero_compare:
  assumes "wf_format fmt" "\<not> is_nan fmt r"
  shows "flt fmt r (lit_zero fmt False) \<longleftrightarrow> fval fmt r < 0"
proof -
  note zf = lit_zero_fields [OF assms(1), where s = False]
  have "fval fmt r < of_int 0 \<longleftrightarrow> sval fmt r < 0 * int (unit fmt)"
    by (rule fval_less_int)
  then show ?thesis using assms(2) by (simp add: flt_def zf)
qed

lemma fval_eq_int: "fval fmt a = of_int z \<longleftrightarrow> sval fmt a = z * int (unit fmt)"
proof -
  have "(of_int (sval fmt a) :: rat) = of_int (z * int (unit fmt))
      \<longleftrightarrow> sval fmt a = z * int (unit fmt)"
    by (rule of_int_eq_iff)
  then show ?thesis using unit_pos [of fmt] by (simp add: fval_def divide_eq_eq)
qed

lemma range_min_compare:
  assumes "wf_format fmt" "k \<le> EXP_BIAS fmt" "\<not> is_nan fmt r"
  shows "flt fmt r (create_value fmt True ((k + EXP_BIAS fmt) mod 2 ^ TOTAL_LEN fmt)
            (EXPLICIT_BIT fmt)) \<longleftrightarrow> fval fmt r < - (2 ^ k)"
proof -
  let ?min = "create_value fmt True ((k + EXP_BIAS fmt) mod 2 ^ TOTAL_LEN fmt) (EXPLICIT_BIT fmt)"
  note rb = range_bound_cv [OF assms(1,2)]
  have smin: "sval fmt ?min = - (2 ^ k) * int (unit fmt)"
    by (simp add: rb sval_def)
  have nmin: "\<not> is_nan fmt ?min" by (simp add: rb)
  have "fval fmt r < of_int (- (2 ^ k)) \<longleftrightarrow> sval fmt r < - (2 ^ k) * int (unit fmt)"
    by (rule fval_less_int)
  then show ?thesis using assms(3) nmin by (simp add: flt_def smin)
qed

lemma range_max_compare:
  fixes fmt :: format and rm :: fe_round and k :: nat
  assumes "wf_format fmt" "k \<le> EXP_BIAS fmt" "\<not> is_nan fmt r" "unit fmt dvd smag fmt r"
    "\<not> (FRACTION_LEN fmt + 1 < k \<and> (rm = FE_TONEAREST \<or> rm = FE_UPWARD) \<and>
        fval fmt r = 2 ^ k)"
  shows "fgt fmt r (fsub fmt rm
            (create_value fmt False ((k + EXP_BIAS fmt) mod 2 ^ TOTAL_LEN fmt) (EXPLICIT_BIT fmt))
            (lit_one fmt False)) \<longleftrightarrow> 2 ^ k - 1 < fval fmt r"
proof (cases "k \<le> FRACTION_LEN fmt + 1")
  case True
  show ?thesis using assms(1,2) True assms(3) by (rule range_compare(2))
next
  case False
  then have wide: "FRACTION_LEN fmt + 1 < k" by simp
  let ?max = "fsub fmt rm
     (create_value fmt False ((k + EXP_BIAS fmt) mod 2 ^ TOTAL_LEN fmt) (EXPLICIT_BIT fmt))
     (lit_one fmt False)"
  define U where "U = int (unit fmt)"
  define P :: int where "P = 2 ^ k"
  have U0: "0 < U" using unit_pos [of fmt] by (simp add: U_def)
  have nmax: "\<not> is_nan fmt ?max" using assms(1,2) by (rule range_max_value(1))
  have g: "fgt fmt r ?max \<longleftrightarrow> sval fmt ?max < sval fmt r"
    using assms(3) nmax by (simp add: fgt_def flt_def)
  have "of_int (P - 1) < fval fmt r \<longleftrightarrow> (P - 1) * U < sval fmt r"
    unfolding U_def by (rule int_less_fval)
  then have out: "2 ^ k - 1 < fval fmt r \<longleftrightarrow> (P - 1) * U < sval fmt r"
    by (simp add: P_def)
  show ?thesis
  proof (cases "rm = FE_TONEAREST \<or> rm = FE_UPWARD")
    case True
    have smax: "sval fmt ?max = P * U"
      unfolding P_def U_def using assms(1) wide assms(2) True by (rule range_max_wide(1))
    from assms(4) obtain c where c: "smag fmt r = unit fmt * c" ..
    define z where "z = (if is_neg fmt r then - int c else int c)"
    have sz: "sval fmt r = z * U" by (simp add: sval_def c z_def U_def)
    have "fval fmt r = of_int P \<longleftrightarrow> sval fmt r = P * U"
      unfolding U_def by (rule fval_eq_int)
    then have "fval fmt r = 2 ^ k \<longleftrightarrow> z = P" using U0 by (simp add: P_def sz)
    with assms(5) wide True have zP: "z \<noteq> P" by simp
    have 1: "P * U < z * U \<longleftrightarrow> P < z" using U0 by (rule mult_less_cancel_right_pos)
    have 2: "(P - 1) * U < z * U \<longleftrightarrow> P - 1 < z" using U0 by (rule mult_less_cancel_right_pos)
    have "P < z \<longleftrightarrow> P - 1 < z" using zP by linarith
    then show ?thesis by (simp only: g out smax sz 1 2)
  next
    case nt: False
    then have dz: "rm = FE_DOWNWARD \<or> rm = FE_TOWARDZERO" by (cases rm) simp_all
    define d where "d = k + EXP_BIAS fmt - 2"
    define W :: nat where "W = 2 ^ (FRACTION_LEN fmt + 1)"
    have smax: "sval fmt ?max = int ((W - 1) * 2 ^ d)"
      unfolding W_def d_def using assms(1) wide assms(2) dz by (rule range_max_wide(2))
    have b3: "3 \<le> EXP_BIAS fmt" using assms(1) by (rule wf_bias)
    from wide obtain j where k: "k = FRACTION_LEN fmt + 1 + Suc j"
      by (metis Suc_eq_plus1 less_imp_Suc_add add_Suc_right)
    have dj: "d = Suc j + (FRACTION_LEN fmt + EXP_BIAS fmt - 1)" using b3 by (simp add: d_def k)
    have pd: "(2::nat) ^ d = 2 ^ Suc j * unit fmt" by (simp only: dj power_add unit_def)
    have WP: "W * 2 ^ d = 2 ^ k * unit fmt"
      by (simp add: W_def pd k power_add)
    have W1: "1 \<le> W" by (simp add: W_def)
    have J1: "(1::nat) \<le> 2 ^ Suc j" by simp
    have "(W - 1) * 2 ^ Suc j + 1 \<le> (W - 1) * 2 ^ Suc j + 2 ^ Suc j" using J1 by simp
    also have "\<dots> = W * 2 ^ Suc j" using W1 by (simp add: diff_mult_distrib)
    also have "\<dots> = 2 ^ k" by (simp add: W_def k power_add)
    finally have "(W - 1) * 2 ^ Suc j \<le> 2 ^ k - 1" by linarith
    then have "(W - 1) * 2 ^ Suc j * unit fmt \<le> (2 ^ k - 1) * unit fmt"
      by (rule mult_right_mono) simp
    then have low: "(W - 1) * 2 ^ d \<le> (2 ^ k - 1) * unit fmt" by (simp only: pd mult.assoc)
    have pk: "int ((2 ^ k - 1) * unit fmt) = (P - 1) * U"
      by (simp add: P_def U_def of_nat_diff)
    have pk2: "int (2 ^ k * unit fmt) = P * U" by (simp add: P_def U_def)
    have PU: "(P - 1) * U < P * U" using U0 by (simp add: algebra_simps)
    show ?thesis
    proof
      assume "fgt fmt r ?max"
      then have lt: "int ((W - 1) * 2 ^ d) < sval fmt r" by (simp only: g smax)
      have nn: "\<not> is_neg fmt r"
      proof
        assume "is_neg fmt r"
        then have "sval fmt r \<le> 0" by (simp add: sval_def)
        with lt show False by linarith
      qed
      then have sv: "sval fmt r = int (smag fmt r)" by (rule sval_pos)
      from lt have "(W - 1) * 2 ^ d < smag fmt r" by (simp only: sv of_nat_less_iff)
      then have "W * 2 ^ d \<le> smag fmt r" unfolding W_def by (rule pattern_gap)
      then have "2 ^ k * unit fmt \<le> smag fmt r" by (simp only: WP)
      then have "int (2 ^ k * unit fmt) \<le> sval fmt r" by (simp only: sv of_nat_le_iff)
      then have "P * U \<le> sval fmt r" by (simp only: pk2)
      then have "(P - 1) * U < sval fmt r" using PU by linarith
      then show "2 ^ k - 1 < fval fmt r" by (simp only: out)
    next
      assume "2 ^ k - 1 < fval fmt r"
      then have "(P - 1) * U < sval fmt r" by (simp only: out)
      then have "int ((2 ^ k - 1) * unit fmt) < sval fmt r" by (simp only: pk)
      moreover have "int ((W - 1) * 2 ^ d) \<le> int ((2 ^ k - 1) * unit fmt)"
        using low by (simp only: of_nat_le_iff)
      ultimately have "int ((W - 1) * 2 ^ d) < sval fmt r" by linarith
      then show "fgt fmt r ?max" by (simp only: g smax)
    qed
  qed
qed

lemma rusrm_dvd:
  assumes "wf_format fmt" "valid fmt x" "\<not> is_inf_or_nan fmt x"
  shows "unit fmt dvd smag fmt (round_using_specific_rounding_mode fmt rm x rnd)"
    and "\<not> is_nan fmt (round_using_specific_rounding_mode fmt rm x rnd)"
proof -
  let ?r = "round_using_specific_rounding_mode fmt rm x rnd"
  have ip: "integral_pat fmt ?r" using assms(1,2) by (rule integral_pat_results)
  have fin: "\<not> is_inf_or_nan fmt ?r" using assms(1-3) by (rule rusrm_finite)
  show "unit fmt dvd smag fmt ?r" using assms(1) ip fin by (rule integral_pat_dvd)
  show "\<not> is_nan fmt ?r" using fin by (simp add: is_nan_def)
qed

lemma fromfp_signed_checked:
  assumes "wf_format fmt" "valid fmt x" "\<not> is_inf_or_nan fmt x" "width \<noteq> 0"
    "\<not> EXP_BIAS fmt < width - 1"
    "r = round_using_specific_rounding_mode fmt (rounding env) x rnd"
    "\<not> (FRACTION_LEN fmt + 1 < width - 1 \<and>
        (rounding env = FE_TONEAREST \<or> rounding env = FE_UPWARD) \<and>
        fval fmt r = 2 ^ (width - 1))"
  shows "fromfp fmt True x rnd width env =
    (if fval fmt r < - (2 ^ (width - 1)) then invalid_nan fmt env
     else if 2 ^ (width - 1) - 1 < fval fmt r
       then invalid_nan fmt
         (set_flags (if FRACTION_LEN fmt + 1 < width - 1 then {FE_INEXACT} else {}) env)
       else (r, set_flags (if FRACTION_LEN fmt + 1 < width - 1 then {FE_INEXACT} else {}) env))"
proof -
  have kb: "width - 1 \<le> EXP_BIAS fmt" using assms(5) by simp
  have rn: "\<not> is_nan fmt r" and dv: "unit fmt dvd smag fmt r"
    unfolding assms(6) using assms(1-3) by (rule rusrm_dvd)+
  note A = range_min_compare [OF assms(1) kb rn]
  note B = range_max_compare [OF assms(1) kb rn dv assms(7)]
  note C = range_max_flags [OF assms(1) kb, of "rounding env"]
  show ?thesis
    unfolding fromfp_def Let_def assms(6) [symmetric]
    by (simp only: assms(3,4,5) if_False if_True A B C)
qed

lemma fromfp_unsigned_checked:
  assumes "wf_format fmt" "valid fmt x" "\<not> is_inf_or_nan fmt x" "width \<noteq> 0"
    "\<not> EXP_BIAS fmt < width"
    "r = round_using_specific_rounding_mode fmt (rounding env) x rnd"
    "\<not> (FRACTION_LEN fmt + 1 < width \<and>
        (rounding env = FE_TONEAREST \<or> rounding env = FE_UPWARD) \<and>
        fval fmt r = 2 ^ width)"
  shows "fromfp fmt False x rnd width env =
    (if fval fmt r < 0 then invalid_nan fmt env
     else if 2 ^ width - 1 < fval fmt r
       then invalid_nan fmt
         (set_flags (if FRACTION_LEN fmt + 1 < width then {FE_INEXACT} else {}) env)
       else (r, set_flags (if FRACTION_LEN fmt + 1 < width then {FE_INEXACT} else {}) env))"
proof -
  have kb: "width \<le> EXP_BIAS fmt" using assms(5) by simp
  have rn: "\<not> is_nan fmt r" and dv: "unit fmt dvd smag fmt r"
    unfolding assms(6) using assms(1-3) by (rule rusrm_dvd)+
  note A = zero_compare [OF assms(1) rn]
  note B = range_max_compare [OF assms(1) kb rn dv assms(7)]
  note C = range_max_flags [OF assms(1) kb, of "rounding env"]
  show ?thesis
    unfolding fromfp_def Let_def assms(6) [symmetric]
    by (simp only: assms(3,4,5) if_False if_True A B C)
qed

lemma fromfp_signed_unchecked:
  assumes "wf_format fmt" "valid fmt x" "\<not> is_inf_or_nan fmt x" "width \<noteq> 0"
    "EXP_BIAS fmt < width - 1"
    "r = round_using_specific_rounding_mode fmt (rounding env) x rnd"
  shows "fromfp fmt True x rnd width env = (r, env)"
    and "\<not> (fval fmt r < - (2 ^ (width - 1)) \<or> 2 ^ (width - 1) - 1 < fval fmt r)"
proof -
  show "fromfp fmt True x rnd width env = (r, env)"
    unfolding fromfp_def Let_def assms(6) [symmetric]
    by (simp only: assms(3,4,5) if_False if_True)
  note b = rusrm_value_bound [OF assms(1-3,5), of "rounding env" rnd]
  have 1: "fval fmt r < of_int (- (2 ^ (width - 1))) \<longleftrightarrow>
      sval fmt r < - (2 ^ (width - 1)) * int (unit fmt)"
    by (rule fval_less_int)
  have 2: "of_int (2 ^ (width - 1) - 1) < fval fmt r \<longleftrightarrow>
      (2 ^ (width - 1) - 1) * int (unit fmt) < sval fmt r"
    by (rule int_less_fval)
  have "\<not> sval fmt r < - (2 ^ (width - 1)) * int (unit fmt)"
    "\<not> (2 ^ (width - 1) - 1) * int (unit fmt) < sval fmt r"
    using b unfolding assms(6) by linarith+
  then show "\<not> (fval fmt r < - (2 ^ (width - 1)) \<or> 2 ^ (width - 1) - 1 < fval fmt r)"
    using 1 2 by simp
qed

lemma fromfp_unsigned_unchecked:
  assumes "wf_format fmt" "valid fmt x" "\<not> is_inf_or_nan fmt x" "width \<noteq> 0"
    "EXP_BIAS fmt < width"
    "r = round_using_specific_rounding_mode fmt (rounding env) x rnd"
  shows "fromfp fmt False x rnd width env =
      (if fval fmt r < 0 then invalid_nan fmt env else (r, env))"
    and "\<not> 2 ^ width - 1 < fval fmt r"
proof -
  have rn: "\<not> is_nan fmt r"
    unfolding assms(6) using rusrm_finite [OF assms(1-3)] by (simp add: is_nan_def)
  note A = zero_compare [OF assms(1) rn]
  show "fromfp fmt False x rnd width env =
      (if fval fmt r < 0 then invalid_nan fmt env else (r, env))"
    unfolding fromfp_def Let_def assms(6) [symmetric]
    by (simp only: assms(3,4,5) if_False if_True A)
  note b = rusrm_value_bound(2) [OF assms(1-3,5), of "rounding env" rnd]
  have 2: "of_int (2 ^ width - 1) < fval fmt r \<longleftrightarrow>
      (2 ^ width - 1) * int (unit fmt) < sval fmt r"
    by (rule int_less_fval)
  have "\<not> (2 ^ width - 1) * int (unit fmt) < sval fmt r"
    using b unfolding assms(6) by linarith
  then show "\<not> 2 ^ width - 1 < fval fmt r" using 2 by simp
qed

lemmas flag_defs = set_flags_def fsub_excepts_def fadd_excepts_def round_excepts_def
  is_signaling_nan_def

section \<open>The range check of the fixed-width conversion\<close>

text \<open>
  Where the upper bound is not representable (\<open>FRACTION_LEN + 1 < k \<le> EXP_BIAS\<close>, with
  \<open>k = width - 1\<close> for the signed and \<open>k = width\<close> for the unsigned conversion) the
  subtraction \<open>2 ^ k - 1.0\<close> rounds. With the ambient direction to nearest or upward it
  gives \<open>2 ^ k\<close>, and a rounded value of exactly \<open>2 ^ k\<close> then passes the test
  \<open>rounded_value > range_max\<close> although it exceeds \<open>2 ^ k - 1\<close>: it is returned, with
  the inexact flag of the subtraction set.
\<close>

lemma fromfp_accepts_two_pow:
  assumes "wf_format fmt" "valid fmt x" "\<not> is_inf_or_nan fmt x" "width \<noteq> 0"
    "r = round_using_specific_rounding_mode fmt (rounding env) x rnd"
    "k = (if S then width - 1 else width)"
    "FRACTION_LEN fmt + 1 < k" "k \<le> EXP_BIAS fmt"
    "rounding env = FE_TONEAREST \<or> rounding env = FE_UPWARD"
    "fval fmt r = 2 ^ k"
  shows "fromfp fmt S x rnd width env = (r, set_flags {FE_INEXACT} env)"
proof -
  let ?max = "fsub fmt (rounding env)
     (create_value fmt False ((k + EXP_BIAS fmt) mod 2 ^ TOTAL_LEN fmt) (EXPLICIT_BIT fmt))
     (lit_one fmt False)"
  have rn: "\<not> is_nan fmt r"
    unfolding assms(5) using assms(1-3) by (rule rusrm_dvd)
  have p: "(0::rat) < 2 ^ k" by simp
  have A: "\<not> flt fmt r (create_value fmt True ((k + EXP_BIAS fmt) mod 2 ^ TOTAL_LEN fmt)
            (EXPLICIT_BIT fmt))"
    unfolding range_min_compare [OF assms(1,8) rn] assms(10) using p by linarith
  have Z: "\<not> flt fmt r (lit_zero fmt False)"
    unfolding zero_compare [OF assms(1) rn] assms(10) using p by linarith
  have "fval fmt r = of_int (2 ^ k) \<longleftrightarrow> sval fmt r = 2 ^ k * int (unit fmt)"
    by (rule fval_eq_int)
  then have sr: "sval fmt r = 2 ^ k * int (unit fmt)" using assms(10) by simp
  have sm: "sval fmt ?max = 2 ^ k * int (unit fmt)"
    using assms(1,7,8,9) by (rule range_max_wide(1))
  have B: "\<not> fgt fmt r ?max" by (simp add: fgt_def flt_def sr sm)
  have C: "fsub_excepts fmt (rounding env)
     (create_value fmt False ((k + EXP_BIAS fmt) mod 2 ^ TOTAL_LEN fmt) (EXPLICIT_BIT fmt))
     (lit_one fmt False) = {FE_INEXACT}"
    using range_max_flags [OF assms(1,8), of "rounding env"] assms(7) by simp
  show ?thesis
  proof (cases S)
    case True
    then have k: "k = width - 1" using assms(6) by simp
    have nb: "\<not> EXP_BIAS fmt < width - 1" using assms(8) k by simp
    show ?thesis
      unfolding fromfp_def Let_def assms(5) [symmetric] k [symmetric]
      using True assms(3,4) nb A B C by (simp add: k)
  next
    case False
    then have k: "k = width" using assms(6) by simp
    have nb: "\<not> EXP_BIAS fmt < width" using assms(8) k by simp
    show ?thesis
      unfolding fromfp_def Let_def assms(5) [symmetric]
      using False assms(3,4) nb Z B C by (simp add: k)
  qed
qed

text \<open>
  Claim C1, as the code has it. For a finite \<open>x\<close>, any mode and any nonzero width, let
  \<open>r\<close> be the rounded value and \<open>k\<close> be \<open>width - 1\<close> (signed) or \<open>width\<close> (unsigned).
  Leaving aside the one case above (a bound that is not representable, the ambient
  direction to nearest or upward, and \<open>r = 2 ^ k\<close> exactly): when \<open>r\<close> lies outside the
  target domain (signed: below \<open>- 2 ^ k\<close> or above \<open>2 ^ k - 1\<close>; unsigned: below zero
  or above \<open>2 ^ k - 1\<close>), \<open>fromfp\<close> raises the invalid-operation exception, returns the
  quiet NaN and leaves errno as it was; when \<open>r\<close> lies inside, \<open>fromfp\<close> returns \<open>r\<close>
  and raises no invalid-operation exception. \<open>fromfp\<close> calls \<open>raise_except_if_required\<close>
  only; the domain error on errno is set by the integer conversions, not here. The
  only other change of the environment is the inexact flag of the subtraction that
  computes an unrepresentable upper bound.
\<close>

theorem fromfp_rejects_out_of_domain:
  assumes "wf_format fmt" "valid fmt x" "\<not> is_inf_or_nan fmt x" "width \<noteq> 0"
    "r = round_using_specific_rounding_mode fmt (rounding env) x rnd"
    "k = (if S then width - 1 else width)"
    "\<not> (FRACTION_LEN fmt + 1 < k \<and> k \<le> EXP_BIAS fmt \<and>
        (rounding env = FE_TONEAREST \<or> rounding env = FE_UPWARD) \<and> fval fmt r = 2 ^ k)"
  shows
   "fromfp fmt S x rnd width env =
      (if (if S then fval fmt r < - (2 ^ k) else fval fmt r < 0)
       then (quiet_nan fmt, env\<lparr>excepts := insert FE_INVALID (excepts env)\<rparr>)
       else if 2 ^ k - 1 < fval fmt r
       then (quiet_nan fmt, env\<lparr>excepts := insert FE_INVALID (excepts env \<union>
              (if FRACTION_LEN fmt + 1 < k \<and> k \<le> EXP_BIAS fmt then {FE_INEXACT} else {}))\<rparr>)
       else (r, env\<lparr>excepts := excepts env \<union>
              (if FRACTION_LEN fmt + 1 < k \<and> k \<le> EXP_BIAS fmt then {FE_INEXACT} else {})\<rparr>)) \<and>
    is_nan fmt (quiet_nan fmt) \<and> \<not> is_nan fmt r \<and>
    errno (snd (fromfp fmt S x rnd width env)) = errno env \<and>
    (FE_INVALID \<in> excepts (snd (fromfp fmt S x rnd width env)) \<longleftrightarrow>
       (if S then fval fmt r < - (2 ^ k) else fval fmt r < 0) \<or> 2 ^ k - 1 < fval fmt r \<or>
       FE_INVALID \<in> excepts env)"
proof -
  define ie where
    "ie = (if FRACTION_LEN fmt + 1 < k \<and> k \<le> EXP_BIAS fmt then {FE_INEXACT} else {})"
  define below where "below = (if S then fval fmt r < - (2 ^ k) else fval fmt r < 0)"
  define above where "above \<longleftrightarrow> 2 ^ k - 1 < fval fmt r"
  have n: "is_nan fmt (quiet_nan fmt)" using assms(1) by (rule quiet_nan_is_nan)
  have rn: "\<not> is_nan fmt r"
    unfolding assms(5) using assms(1-3) by (rule rusrm_dvd)
  have f: "fromfp fmt S x rnd width env =
      (if below then invalid_nan fmt env
       else if above then invalid_nan fmt (set_flags ie env) else (r, set_flags ie env))"
  proof (cases S)
    case True
    then have k: "k = width - 1" using assms(6) by simp
    show ?thesis
    proof (cases "EXP_BIAS fmt < width - 1")
      case big: True
      note u = fromfp_signed_unchecked [OF assms(1-4) big assms(5)]
      have "ie = {}" using big by (simp add: ie_def k)
      then have "set_flags ie env = env" by (simp add: set_flags_def)
      then show ?thesis using True u by (simp add: below_def above_def k)
    next
      case False
      then have ie: "ie = (if FRACTION_LEN fmt + 1 < width - 1 then {FE_INEXACT} else {})"
        by (simp add: ie_def k)
      have h: "\<not> (FRACTION_LEN fmt + 1 < width - 1 \<and>
        (rounding env = FE_TONEAREST \<or> rounding env = FE_UPWARD) \<and>
        fval fmt r = 2 ^ (width - 1))"
        using assms(7) False by (simp add: k)
      show ?thesis
        using True fromfp_signed_checked [OF assms(1-4) False assms(5) h]
        by (simp only: below_def above_def k ie if_True)
    qed
  next
    case False
    then have k: "k = width" using assms(6) by simp
    show ?thesis
    proof (cases "EXP_BIAS fmt < width")
      case big: True
      note u = fromfp_unsigned_unchecked [OF assms(1-4) big assms(5)]
      have "ie = {}" using big by (simp add: ie_def k)
      then have "set_flags ie env = env" by (simp add: set_flags_def)
      then show ?thesis using False u by (simp add: below_def above_def k)
    next
      case nb: False
      then have ie: "ie = (if FRACTION_LEN fmt + 1 < width then {FE_INEXACT} else {})"
        by (simp add: ie_def k)
      have h: "\<not> (FRACTION_LEN fmt + 1 < width \<and>
        (rounding env = FE_TONEAREST \<or> rounding env = FE_UPWARD) \<and>
        fval fmt r = 2 ^ width)"
        using assms(7) nb by (simp add: k)
      show ?thesis
        using False fromfp_unsigned_checked [OF assms(1-4) nb assms(5) h]
        by (simp only: below_def above_def k ie if_False)
    qed
  qed
  have f': "fromfp fmt S x rnd width env =
      (if below then (quiet_nan fmt, env\<lparr>excepts := insert FE_INVALID (excepts env)\<rparr>)
       else if above
       then (quiet_nan fmt, env\<lparr>excepts := insert FE_INVALID (excepts env \<union> ie)\<rparr>)
       else (r, env\<lparr>excepts := excepts env \<union> ie\<rparr>))"
    unfolding f by (simp add: invalid_nan_eq set_flags_def)
  have e: "errno (snd (fromfp fmt S x rnd width env)) = errno env"
    unfolding f' by simp
  have v: "FE_INVALID \<in> excepts (snd (fromfp fmt S x rnd width env)) \<longleftrightarrow>
       below \<or> above \<or> FE_INVALID \<in> excepts env"
    unfolding f' by (auto simp: ie_def)
  show ?thesis
    using n rn e v f' unfolding ie_def below_def above_def by blast
qed

theorem fromfp_rejects_out_of_domain_witness:
  "wf_format binary32 \<and> valid binary32 0x43480000 \<and> \<not> is_inf_or_nan binary32 0x43480000 \<and>
   fval binary32 (round_using_specific_rounding_mode binary32 FE_TONEAREST 0x43480000
     FP_INT_TOWARDZERO) = 200 \<and>
   fromfp binary32 True 0x43480000 FP_INT_TOWARDZERO 8
       \<lparr>rounding = FE_TONEAREST, excepts = {}, errno = 0\<rparr> =
     (quiet_nan binary32, \<lparr>rounding = FE_TONEAREST, excepts = {FE_INVALID}, errno = 0\<rparr>) \<and>
   quiet_nan binary32 = 0x7FC00000 \<and>
   valid binary32 0xBFC00000 \<and> \<not> is_inf_or_nan binary32 0xBFC00000 \<and>
   fval binary32 (round_using_specific_rounding_mode binary32 FE_TONEAREST 0xBFC00000
     FP_INT_TOWARDZERO) = - 1 \<and>
   fromfp binary32 False 0xBFC00000 FP_INT_TOWARDZERO 8
       \<lparr>rounding = FE_TONEAREST, excepts = {}, errno = 0\<rparr> =
     (quiet_nan binary32, \<lparr>rounding = FE_TONEAREST, excepts = {FE_INVALID}, errno = 0\<rparr>) \<and>
   valid binary32 0x4F000001 \<and> \<not> is_inf_or_nan binary32 0x4F000001 \<and>
   fval binary32 (round_using_specific_rounding_mode binary32 FE_TONEAREST 0x4F000001
     FP_INT_TOWARDZERO) = 2 ^ 31 + 256 \<and>
   fromfp binary32 True 0x4F000001 FP_INT_TOWARDZERO 32
       \<lparr>rounding = FE_TONEAREST, excepts = {}, errno = 0\<rparr> =
     (quiet_nan binary32,
      \<lparr>rounding = FE_TONEAREST, excepts = {FE_INVALID, FE_INEXACT}, errno = 0\<rparr>) \<and>
   valid binary32 0x4EFFFFFF \<and> \<not> is_inf_or_nan binary32 0x4EFFFFFF \<and>
   fval binary32 (round_using_specific_rounding_mode binary32 FE_TONEAREST 0x4EFFFFFF
     FP_INT_TOWARDZERO) = 2 ^ 31 - 128 \<and>
   fromfp binary32 True 0x4EFFFFFF FP_INT_TOWARDZERO 32
       \<lparr>rounding = FE_TONEAREST, excepts = {}, errno = 0\<rparr> =
     (0x4EFFFFFF, \<lparr>rounding = FE_TONEAREST, excepts = {FE_INEXACT}, errno = 0\<rparr>)"
proof -
  let ?env = "\<lparr>rounding = FE_TONEAREST, excepts = {}, errno = 0\<rparr>"
  have wf: "wf_format binary32" by (simp add: fmt_defs)
  have F: "FRACTION_LEN binary32 = 23" "EXP_BIAS binary32 = 127" by (simp_all add: fmt_defs)
  have a: "valid binary32 0x43480000" "\<not> is_inf_or_nan binary32 0x43480000"
    by (simp_all add: eval_defs)
  have b: "valid binary32 0xBFC00000" "\<not> is_inf_or_nan binary32 0xBFC00000"
    by (simp_all add: eval_defs)
  have c: "valid binary32 0x4F000001" "\<not> is_inf_or_nan binary32 0x4F000001"
    by (simp_all add: eval_defs)
  have d: "valid binary32 0x4EFFFFFF" "\<not> is_inf_or_nan binary32 0x4EFFFFFF"
    by (simp_all add: eval_defs)
  have w8: "(8::nat) \<noteq> 0" and w32: "(32::nat) \<noteq> 0" by simp_all
  have ra: "round_using_specific_rounding_mode binary32 FE_TONEAREST 0x43480000 FP_INT_TOWARDZERO
      = 0x43480000"
    by (simp add: round_using_specific_rounding_mode_def eval_defs)
  have rb: "round_using_specific_rounding_mode binary32 FE_TONEAREST 0xBFC00000 FP_INT_TOWARDZERO
      = 0xBF800000"
    by (simp add: round_using_specific_rounding_mode_def eval_defs)
  have rc: "round_using_specific_rounding_mode binary32 FE_TONEAREST 0x4F000001 FP_INT_TOWARDZERO
      = 0x4F000001"
    by (simp add: round_using_specific_rounding_mode_def eval_defs)
  have rd: "round_using_specific_rounding_mode binary32 FE_TONEAREST 0x4EFFFFFF FP_INT_TOWARDZERO
      = 0x4EFFFFFF"
    by (simp add: round_using_specific_rounding_mode_def eval_defs)
  have va: "fval binary32 0x43480000 = 200" by (simp add: eval_defs)
  have vb: "fval binary32 0xBF800000 = - 1" by (simp add: eval_defs)
  have vc: "fval binary32 0x4F000001 = 2 ^ 31 + 256" by (simp add: eval_defs)
  have vd: "fval binary32 0x4EFFFFFF = 2 ^ 31 - 128" by (simp add: eval_defs)
  have q: "quiet_nan binary32 = 0x7FC00000" by (simp add: eval_defs)
  have ea: "0x43480000 = round_using_specific_rounding_mode binary32 (rounding ?env) 0x43480000
      FP_INT_TOWARDZERO"
    by (simp add: ra)
  have eb: "0xBF800000 = round_using_specific_rounding_mode binary32 (rounding ?env) 0xBFC00000
      FP_INT_TOWARDZERO"
    by (simp add: rb)
  have ec: "0x4F000001 = round_using_specific_rounding_mode binary32 (rounding ?env) 0x4F000001
      FP_INT_TOWARDZERO"
    by (simp add: rc)
  have ed: "0x4EFFFFFF = round_using_specific_rounding_mode binary32 (rounding ?env) 0x4EFFFFFF
      FP_INT_TOWARDZERO"
    by (simp add: rd)
  have k7: "(7::nat) = (if True then 8 - 1 else 8)" by simp
  have k8: "(8::nat) = (if False then 8 - 1 else 8)" by simp
  have k31: "(31::nat) = (if True then 32 - 1 else 32)" by simp
  have ha: "\<not> (FRACTION_LEN binary32 + 1 < 7 \<and> 7 \<le> EXP_BIAS binary32 \<and>
      (rounding ?env = FE_TONEAREST \<or> rounding ?env = FE_UPWARD) \<and>
      fval binary32 0x43480000 = 2 ^ 7)"
    by (simp add: F)
  have hb: "\<not> (FRACTION_LEN binary32 + 1 < 8 \<and> 8 \<le> EXP_BIAS binary32 \<and>
      (rounding ?env = FE_TONEAREST \<or> rounding ?env = FE_UPWARD) \<and>
      fval binary32 0xBF800000 = 2 ^ 8)"
    by (simp add: F)
  have hc: "\<not> (FRACTION_LEN binary32 + 1 < 31 \<and> 31 \<le> EXP_BIAS binary32 \<and>
      (rounding ?env = FE_TONEAREST \<or> rounding ?env = FE_UPWARD) \<and>
      fval binary32 0x4F000001 = 2 ^ 31)"
    by (simp add: vc)
  have hd: "\<not> (FRACTION_LEN binary32 + 1 < 31 \<and> 31 \<le> EXP_BIAS binary32 \<and>
      (rounding ?env = FE_TONEAREST \<or> rounding ?env = FE_UPWARD) \<and>
      fval binary32 0x4EFFFFFF = 2 ^ 31)"
    by (simp add: vd)
  from fromfp_rejects_out_of_domain [OF wf a w8 ea k7 ha]
  have 1: "fromfp binary32 True 0x43480000 FP_INT_TOWARDZERO 8 ?env =
      (quiet_nan binary32, \<lparr>rounding = FE_TONEAREST, excepts = {FE_INVALID}, errno = 0\<rparr>)"
    by (simp add: va F)
  from fromfp_rejects_out_of_domain [OF wf b w8 eb k8 hb]
  have 2: "fromfp binary32 False 0xBFC00000 FP_INT_TOWARDZERO 8 ?env =
      (quiet_nan binary32, \<lparr>rounding = FE_TONEAREST, excepts = {FE_INVALID}, errno = 0\<rparr>)"
    by (simp add: vb F)
  from fromfp_rejects_out_of_domain [OF wf c w32 ec k31 hc]
  have 3: "fromfp binary32 True 0x4F000001 FP_INT_TOWARDZERO 32 ?env =
      (quiet_nan binary32,
       \<lparr>rounding = FE_TONEAREST, excepts = {FE_INVALID, FE_INEXACT}, errno = 0\<rparr>)"
    by (simp add: vc F)
  from fromfp_rejects_out_of_domain [OF wf d w32 ed k31 hd]
  have 4: "fromfp binary32 True 0x4EFFFFFF FP_INT_TOWARDZERO 32 ?env =
      (0x4EFFFFFF, \<lparr>rounding = FE_TONEAREST, excepts = {FE_INEXACT}, errno = 0\<rparr>)"
    by (simp add: vd F)
  have fa: "fval binary32 (round_using_specific_rounding_mode binary32 FE_TONEAREST 0x43480000
     FP_INT_TOWARDZERO) = 200"
    by (simp only: ra va)
  have fb: "fval binary32 (round_using_specific_rounding_mode binary32 FE_TONEAREST 0xBFC00000
     FP_INT_TOWARDZERO) = - 1"
    by (simp only: rb vb)
  have fc: "fval binary32 (round_using_specific_rounding_mode binary32 FE_TONEAREST 0x4F000001
     FP_INT_TOWARDZERO) = 2 ^ 31 + 256"
    by (simp only: rc vc)
  have fd: "fval binary32 (round_using_specific_rounding_mode binary32 FE_TONEAREST 0x4EFFFFFF
     FP_INT_TOWARDZERO) = 2 ^ 31 - 128"
    by (simp only: rd vd)
  from wf a b c d q 1 2 3 4 fa fb fc fd show ?thesis by blast
qed

text \<open>
  The input of the specification's own example: \<open>200.0\<close> converted to a signed width of
  \<open>8\<close> under \<open>FP_INT_TOWARDZERO\<close> is outside the domain (\<open>200 > 127\<close>), and \<open>fromfp\<close>
  leaves errno at \<open>0\<close>: no domain error is recorded on the errno channel.
\<close>

theorem fromfp_sets_no_errno_counterexample:
  "\<not> is_inf_or_nan binary32 0x43480000 \<and>
   fval binary32 (round_using_specific_rounding_mode binary32 FE_TONEAREST 0x43480000
     FP_INT_TOWARDZERO) = 200 \<and>
   (2::rat) ^ (8 - 1) - 1 < 200 \<and>
   fromfp binary32 True 0x43480000 FP_INT_TOWARDZERO 8
       \<lparr>rounding = FE_TONEAREST, excepts = {}, errno = 0\<rparr> =
     (0x7FC00000, \<lparr>rounding = FE_TONEAREST, excepts = {FE_INVALID}, errno = 0\<rparr>) \<and>
   errno (snd (fromfp binary32 True 0x43480000 FP_INT_TOWARDZERO 8
       \<lparr>rounding = FE_TONEAREST, excepts = {}, errno = 0\<rparr>)) \<noteq> EDOM"
proof -
  let ?env = "\<lparr>rounding = FE_TONEAREST, excepts = {}, errno = 0\<rparr>"
  have re: "rounding ?env = FE_TONEAREST" by simp
  have w0: "(8::nat) \<noteq> 0" by simp
  have r: "round_using_specific_rounding_mode binary32 FE_TONEAREST 0x43480000 FP_INT_TOWARDZERO
      = 0x43480000"
    by (simp add: round_using_specific_rounding_mode_def eval_defs)
  have fin: "\<not> is_inf_or_nan binary32 0x43480000" by (simp add: eval_defs)
  have w: "\<not> (8::nat) - 1 > EXP_BIAS binary32" by (simp add: eval_defs)
  have lo: "\<not> flt binary32 0x43480000 (create_value binary32 True
      ((8 - 1 + EXP_BIAS binary32) mod 2 ^ TOTAL_LEN binary32) (EXPLICIT_BIT binary32))"
    by (simp add: eval_defs)
  have hi: "fgt binary32 0x43480000 (fsub binary32 FE_TONEAREST (create_value binary32 False
      ((8 - 1 + EXP_BIAS binary32) mod 2 ^ TOTAL_LEN binary32) (EXPLICIT_BIT binary32))
      (lit_one binary32 False))"
    by (simp add: eval_defs)
  have fl: "fsub_excepts binary32 FE_TONEAREST (create_value binary32 False
      ((8 - 1 + EXP_BIAS binary32) mod 2 ^ TOTAL_LEN binary32) (EXPLICIT_BIT binary32))
      (lit_one binary32 False) = {}"
    by (simp add: eval_defs flag_defs)
  have q: "quiet_nan binary32 = 0x7FC00000" by (simp add: eval_defs)
  have "fromfp binary32 True 0x43480000 FP_INT_TOWARDZERO 8 ?env
      = invalid_nan binary32 (set_flags {} ?env)"
    unfolding fromfp_def Let_def re
    by (simp only: w0 fin r w lo hi fl if_True if_False)
  then have f: "fromfp binary32 True 0x43480000 FP_INT_TOWARDZERO 8 ?env =
     (0x7FC00000, \<lparr>rounding = FE_TONEAREST, excepts = {FE_INVALID}, errno = 0\<rparr>)"
    by (simp add: q invalid_nan_def raise_except_if_required_def set_flags_def)
  have 2: "fval binary32 0x43480000 = 200" by (simp add: eval_defs)
  have 3: "(2::rat) ^ (8 - 1) - 1 < 200" by simp
  show ?thesis using fin 2 3 by (simp add: r f EDOM_def)
qed

text \<open>
  The case left aside, in binary32 with a signed width of \<open>32\<close>: the rounded value
  \<open>2 ^ 31\<close> exceeds \<open>2 ^ 31 - 1\<close>. With the ambient direction to nearest the bound
  \<open>2 ^ 31 - 1.0\<close> rounds to \<open>2 ^ 31\<close> and the value is returned; with the ambient
  direction toward zero the bound is the float below \<open>2 ^ 31\<close> and the same input is
  rejected. Either way the subtraction leaves the inexact flag set.
\<close>

lemma fromfp_width_32_at_two_pow_31:
  "fval binary32 0x4F000000 = 2 ^ 31 \<and>
   fromfp binary32 True 0x4F000000 FP_INT_TOWARDZERO 32
       \<lparr>rounding = FE_TONEAREST, excepts = {}, errno = 0\<rparr> =
     (0x4F000000, \<lparr>rounding = FE_TONEAREST, excepts = {FE_INEXACT}, errno = 0\<rparr>) \<and>
   fromfp binary32 True 0x4F000000 FP_INT_TOWARDZERO 32
       \<lparr>rounding = FE_TOWARDZERO, excepts = {}, errno = 0\<rparr> =
     (0x7FC00000,
      \<lparr>rounding = FE_TOWARDZERO, excepts = {FE_INVALID, FE_INEXACT}, errno = 0\<rparr>)"
proof -
  let ?envn = "\<lparr>rounding = FE_TONEAREST, excepts = {}, errno = 0\<rparr>"
  let ?envz = "\<lparr>rounding = FE_TOWARDZERO, excepts = {}, errno = 0\<rparr>"
  have wf: "wf_format binary32" by (simp add: fmt_defs)
  have F: "FRACTION_LEN binary32 = 23" "EXP_BIAS binary32 = 127" by (simp_all add: fmt_defs)
  have a: "valid binary32 0x4F000000" "\<not> is_inf_or_nan binary32 0x4F000000"
    by (simp_all add: eval_defs)
  have w32: "(32::nat) \<noteq> 0" by simp
  have r: "round_using_specific_rounding_mode binary32 rm 0x4F000000 FP_INT_TOWARDZERO
      = 0x4F000000" for rm
    by (simp add: round_using_specific_rounding_mode_def eval_defs)
  have v: "fval binary32 0x4F000000 = 2 ^ 31" by (simp add: eval_defs)
  have q: "quiet_nan binary32 = 0x7FC00000" by (simp add: eval_defs)
  have en: "0x4F000000 = round_using_specific_rounding_mode binary32 (rounding ?envn) 0x4F000000
      FP_INT_TOWARDZERO"
    by (simp add: r)
  have ez: "0x4F000000 = round_using_specific_rounding_mode binary32 (rounding ?envz) 0x4F000000
      FP_INT_TOWARDZERO"
    by (simp add: r)
  have k31: "(31::nat) = (if True then 32 - 1 else 32)" by simp
  have w: "FRACTION_LEN binary32 + 1 < 31" "31 \<le> EXP_BIAS binary32" by (simp_all add: F)
  have rn: "rounding ?envn = FE_TONEAREST \<or> rounding ?envn = FE_UPWARD" by simp
  have nb: "\<not> EXP_BIAS binary32 < 32 - 1" by (simp add: F)
  have hz: "\<not> (FRACTION_LEN binary32 + 1 < 32 - 1 \<and>
      (rounding ?envz = FE_TONEAREST \<or> rounding ?envz = FE_UPWARD) \<and>
      fval binary32 0x4F000000 = 2 ^ (32 - 1))"
    by simp
  from fromfp_accepts_two_pow [OF wf a w32 en k31 w rn v]
  have 1: "fromfp binary32 True 0x4F000000 FP_INT_TOWARDZERO 32 ?envn =
     (0x4F000000, \<lparr>rounding = FE_TONEAREST, excepts = {FE_INEXACT}, errno = 0\<rparr>)"
    by (simp add: set_flags_def)
  from fromfp_signed_checked [OF wf a w32 nb ez hz]
  have 2: "fromfp binary32 True 0x4F000000 FP_INT_TOWARDZERO 32 ?envz =
     (0x7FC00000,
      \<lparr>rounding = FE_TOWARDZERO, excepts = {FE_INVALID, FE_INEXACT}, errno = 0\<rparr>)"
    by (simp add: v F q invalid_nan_eq set_flags_def)
  from v 1 2 show ?thesis by blast
qed

section \<open>The inexact flag\<close>

text \<open>
  The additions and subtractions of \<open>1.0\<close> in \<open>ceil\<close>, \<open>floor\<close>, \<open>round\<close> and
  \<open>round_using_specific_rounding_mode\<close> are applied to the truncation of an \<open>x\<close> with
  \<open>0 \<le> e < FRACTION_LEN\<close>; their result is representable, so they set no status
  flag in any ambient direction (lemmas \<open>fadd_excepts_away\<close> and \<open>fsub_excepts_away\<close>),
  and the primitives contain no raising call. The flag of \<open>fromfp\<close> and \<open>fromfpx\<close> is
  accounted for as follows: \<open>fromfp\<close> sets inexact exactly when it computes an upper
  bound that is not representable, and \<open>fromfpx\<close> adds it exactly when the value it
  returns is not a NaN and differs from \<open>x\<close>.
\<close>

lemma fromfp_value_cases:
  "fst (fromfp fmt S x rnd width env) = quiet_nan fmt \<or>
   (width \<noteq> 0 \<and> \<not> is_inf_or_nan fmt x \<and>
    fst (fromfp fmt S x rnd width env) =
      round_using_specific_rounding_mode fmt (rounding env) x rnd)"
  by (simp add: fromfp_def Let_def invalid_nan_def)

lemma fromfp_inexact_flag:
  assumes "wf_format fmt" "valid fmt x"
    "r = round_using_specific_rounding_mode fmt (rounding env) x rnd"
    "k = (if S then width - 1 else width)"
  shows "FE_INEXACT \<in> excepts (snd (fromfp fmt S x rnd width env)) \<longleftrightarrow>
     FE_INEXACT \<in> excepts env \<or>
     (width \<noteq> 0 \<and> \<not> is_inf_or_nan fmt x \<and>
      FRACTION_LEN fmt + 1 < k \<and> k \<le> EXP_BIAS fmt \<and>
      \<not> (if S then fval fmt r < - (2 ^ k) else fval fmt r < 0))"
proof (cases "width = 0 \<or> is_inf_or_nan fmt x")
  case True
  then have "fromfp fmt S x rnd width env = invalid_nan fmt env"
    by (auto simp: fromfp_def)
  then show ?thesis using True by (auto simp: invalid_nan_eq)
next
  case False
  then have w: "width \<noteq> 0" and fin: "\<not> is_inf_or_nan fmt x" by simp_all
  have rn: "\<not> is_nan fmt r"
    unfolding assms(3) using assms(1,2) fin by (rule rusrm_dvd)
  show ?thesis
  proof (cases "EXP_BIAS fmt < k")
    case big: True
    show ?thesis
    proof (cases S)
      case True
      then have k: "k = width - 1" using assms(4) by simp
      have "fromfp fmt True x rnd width env = (r, env)"
        using assms(1,2) fin w big [unfolded k] assms(3) by (rule fromfp_signed_unchecked(1))
      then show ?thesis using True big by simp
    next
      case nS: False
      then have k: "k = width" using assms(4) by simp
      have "fromfp fmt False x rnd width env =
          (if fval fmt r < 0 then invalid_nan fmt env else (r, env))"
        using assms(1,2) fin w big [unfolded k] assms(3) by (rule fromfp_unsigned_unchecked(1))
      then show ?thesis using nS big by (simp add: invalid_nan_eq)
    qed
  next
    case nb: False
    then have kb: "k \<le> EXP_BIAS fmt" by simp
    let ?max = "fsub fmt (rounding env)
       (create_value fmt False ((k + EXP_BIAS fmt) mod 2 ^ TOTAL_LEN fmt) (EXPLICIT_BIT fmt))
       (lit_one fmt False)"
    define ie where "ie = (if FRACTION_LEN fmt + 1 < k then {FE_INEXACT} else {})"
    note C = range_max_flags [OF assms(1) kb, of "rounding env", folded ie_def]
    show ?thesis
    proof (cases S)
      case True
      then have k: "k = width - 1" using assms(4) by simp
      note A = range_min_compare [OF assms(1) kb rn]
      have "fromfp fmt True x rnd width env =
          (if fval fmt r < - (2 ^ k) then invalid_nan fmt env
           else if fgt fmt r ?max then invalid_nan fmt (set_flags ie env)
           else (r, set_flags ie env))"
        unfolding fromfp_def Let_def assms(3) [symmetric] k [symmetric]
        using nb by (simp only: fin w if_False if_True A C)
      then show ?thesis
        using True kb w fin by (simp add: invalid_nan_eq set_flags_def ie_def)
    next
      case nS: False
      then have k: "k = width" using assms(4) by simp
      note A = zero_compare [OF assms(1) rn]
      have "fromfp fmt False x rnd width env =
          (if fval fmt r < 0 then invalid_nan fmt env
           else if fgt fmt r ?max then invalid_nan fmt (set_flags ie env)
           else (r, set_flags ie env))"
        unfolding fromfp_def Let_def assms(3) [symmetric] k [symmetric]
        using nb by (simp only: fin w [unfolded k [symmetric]] if_False if_True A C)
      then show ?thesis
        using nS kb w fin by (simp add: invalid_nan_eq set_flags_def ie_def)
    qed
  qed
qed

lemma fromfpx_inexact_flag:
  assumes "wf_format fmt" "valid fmt x"
  shows "fst (fromfpx fmt S x rnd width env) = fst (fromfp fmt S x rnd width env)"
    and "FE_INEXACT \<in> excepts (snd (fromfpx fmt S x rnd width env)) \<longleftrightarrow>
       \<not> is_nan fmt (fst (fromfpx fmt S x rnd width env)) \<and>
       fval fmt (fst (fromfpx fmt S x rnd width env)) \<noteq> fval fmt x \<or>
       FE_INEXACT \<in> excepts (snd (fromfp fmt S x rnd width env))"
    and "\<not> is_nan fmt (fst (fromfpx fmt S x rnd width env)) \<Longrightarrow>
       fval fmt (fst (fromfpx fmt S x rnd width env)) \<noteq> fval fmt x \<longleftrightarrow>
       fst (fromfpx fmt S x rnd width env) \<noteq> x"
proof -
  obtain v e1 where f: "fromfp fmt S x rnd width env = (v, e1)" by (cases "fromfp fmt S x rnd width env")
  have fx: "fromfpx fmt S x rnd width env =
      (v, if \<not> is_nan fmt v \<and> fne fmt v x then raise_except_if_required FE_INEXACT e1 else e1)"
    by (simp add: fromfpx_def f)
  show v: "fst (fromfpx fmt S x rnd width env) = fst (fromfp fmt S x rnd width env)"
    by (simp add: fx f)
  have n: "is_nan fmt (quiet_nan fmt)" using assms(1) by (rule quiet_nan_is_nan)
  have fin: "\<not> is_inf_or_nan fmt x"
    and vr: "v = round_using_specific_rounding_mode fmt (rounding env) x rnd"
    if "\<not> is_nan fmt v"
    using fromfp_value_cases [of fmt S x rnd width env] that n by (auto simp: f)
  have ne: "fne fmt v x \<longleftrightarrow> fval fmt v \<noteq> fval fmt x" if "\<not> is_nan fmt v"
  proof -
    have "\<not> is_nan fmt x" using fin [OF that] by (simp add: is_nan_def)
    with that show ?thesis by (simp add: fne_def fval_eq_iff)
  qed
  show "FE_INEXACT \<in> excepts (snd (fromfpx fmt S x rnd width env)) \<longleftrightarrow>
       \<not> is_nan fmt (fst (fromfpx fmt S x rnd width env)) \<and>
       fval fmt (fst (fromfpx fmt S x rnd width env)) \<noteq> fval fmt x \<or>
       FE_INEXACT \<in> excepts (snd (fromfp fmt S x rnd width env))"
    using ne by (auto simp: fx f raise_except_if_required_def)
  show "fval fmt (fst (fromfpx fmt S x rnd width env)) \<noteq> fval fmt x \<longleftrightarrow>
       fst (fromfpx fmt S x rnd width env) \<noteq> x"
    if nn: "\<not> is_nan fmt (fst (fromfpx fmt S x rnd width env))"
  proof -
    from nn have nv: "\<not> is_nan fmt v" by (simp add: fx)
    have "v \<noteq> x \<longleftrightarrow> fval fmt v \<noteq> fval fmt x"
      unfolding vr [OF nv]
      using rusrm_changes_value [OF assms(1,2) fin [OF nv], of "rounding env" rnd] by simp
    then show ?thesis by (simp add: fx)
  qed
qed

lemma fromfpx_inexact_iff_changed_exact_bound:
  assumes "wf_format fmt" "valid fmt x" "FE_INEXACT \<notin> excepts env"
    "k = (if S then width - 1 else width)"
    "k \<le> FRACTION_LEN fmt + 1 \<or> EXP_BIAS fmt < k"
  shows "FE_INEXACT \<in> excepts (snd (fromfpx fmt S x rnd width env)) \<longleftrightarrow>
       \<not> is_nan fmt (fst (fromfpx fmt S x rnd width env)) \<and>
       fval fmt (fst (fromfpx fmt S x rnd width env)) \<noteq> fval fmt x"
    and "FE_INEXACT \<notin> excepts (snd (fromfp fmt S x rnd width env))"
proof -
  show n: "FE_INEXACT \<notin> excepts (snd (fromfp fmt S x rnd width env))"
    using fromfp_inexact_flag [where env = env and rnd = rnd, OF assms(1,2) refl assms(4)]
      assms(3,5)
    by auto
  show "FE_INEXACT \<in> excepts (snd (fromfpx fmt S x rnd width env)) \<longleftrightarrow>
       \<not> is_nan fmt (fst (fromfpx fmt S x rnd width env)) \<and>
       fval fmt (fst (fromfpx fmt S x rnd width env)) \<noteq> fval fmt x"
    using fromfpx_inexact_flag(2) [OF assms(1,2), of S rnd width env] n by simp
qed

text \<open>
  Claim C5, at an input where the code departs from it. In binary32, \<open>1.0\<close> converted
  to a signed width of \<open>32\<close> is returned unchanged, but the subtraction
  \<open>2 ^ 31 - 1.0\<close> that computes \<open>range_max\<close> is inexact and leaves the inexact flag
  set: \<open>fromfp\<close> returns with inexact raised, and \<open>fromfpx\<close> returns with inexact
  raised although the value it returns equals \<open>x\<close>. At a width of \<open>8\<close> the bound is
  exact and neither function sets the flag for this input.
\<close>

theorem fromfp_sets_inexact_on_unchanged_value:
  "fval binary32 0x3F800000 = 1 \<and>
   fromfp binary32 True 0x3F800000 FP_INT_TONEAREST 32
       \<lparr>rounding = FE_TONEAREST, excepts = {}, errno = 0\<rparr> =
     (0x3F800000, \<lparr>rounding = FE_TONEAREST, excepts = {FE_INEXACT}, errno = 0\<rparr>) \<and>
   fromfpx binary32 True 0x3F800000 FP_INT_TONEAREST 32
       \<lparr>rounding = FE_TONEAREST, excepts = {}, errno = 0\<rparr> =
     (0x3F800000, \<lparr>rounding = FE_TONEAREST, excepts = {FE_INEXACT}, errno = 0\<rparr>) \<and>
   fromfpx binary32 True 0x3F800000 FP_INT_TONEAREST 8
       \<lparr>rounding = FE_TONEAREST, excepts = {}, errno = 0\<rparr> =
     (0x3F800000, \<lparr>rounding = FE_TONEAREST, excepts = {}, errno = 0\<rparr>)"
proof -
  let ?env = "\<lparr>rounding = FE_TONEAREST, excepts = {}, errno = 0\<rparr>"
  have re: "rounding ?env = FE_TONEAREST" by simp
  have w32: "(32::nat) \<noteq> 0" and w8: "(8::nat) \<noteq> 0" by simp_all
  have r: "round_using_specific_rounding_mode binary32 FE_TONEAREST 0x3F800000 FP_INT_TONEAREST
      = 0x3F800000"
    by (simp add: round_using_specific_rounding_mode_def eval_defs)
  have fin: "\<not> is_inf_or_nan binary32 0x3F800000" by (simp add: eval_defs)
  have v: "fval binary32 0x3F800000 = 1" by (simp add: eval_defs)
  have w: "\<not> (32::nat) - 1 > EXP_BIAS binary32" "\<not> (8::nat) - 1 > EXP_BIAS binary32"
    by (simp_all add: eval_defs)
  have lo: "\<not> flt binary32 0x3F800000 (create_value binary32 True
      ((32 - 1 + EXP_BIAS binary32) mod 2 ^ TOTAL_LEN binary32) (EXPLICIT_BIT binary32))"
    "\<not> flt binary32 0x3F800000 (create_value binary32 True
      ((8 - 1 + EXP_BIAS binary32) mod 2 ^ TOTAL_LEN binary32) (EXPLICIT_BIT binary32))"
    by (simp_all add: eval_defs)
  have hi: "\<not> fgt binary32 0x3F800000 (fsub binary32 FE_TONEAREST (create_value binary32 False
      ((32 - 1 + EXP_BIAS binary32) mod 2 ^ TOTAL_LEN binary32) (EXPLICIT_BIT binary32))
      (lit_one binary32 False))"
    "\<not> fgt binary32 0x3F800000 (fsub binary32 FE_TONEAREST (create_value binary32 False
      ((8 - 1 + EXP_BIAS binary32) mod 2 ^ TOTAL_LEN binary32) (EXPLICIT_BIT binary32))
      (lit_one binary32 False))"
    by (simp_all add: eval_defs)
  have fl: "fsub_excepts binary32 FE_TONEAREST (create_value binary32 False
      ((32 - 1 + EXP_BIAS binary32) mod 2 ^ TOTAL_LEN binary32) (EXPLICIT_BIT binary32))
      (lit_one binary32 False) = {FE_INEXACT}"
    "fsub_excepts binary32 FE_TONEAREST (create_value binary32 False
      ((8 - 1 + EXP_BIAS binary32) mod 2 ^ TOTAL_LEN binary32) (EXPLICIT_BIT binary32))
      (lit_one binary32 False) = {}"
    by (simp_all add: eval_defs flag_defs)
  have "fromfp binary32 True 0x3F800000 FP_INT_TONEAREST 32 ?env
      = (0x3F800000, set_flags {FE_INEXACT} ?env)"
    unfolding fromfp_def Let_def re
    by (simp only: w32 fin r w lo hi fl if_True if_False)
  then have f32: "fromfp binary32 True 0x3F800000 FP_INT_TONEAREST 32 ?env =
     (0x3F800000, \<lparr>rounding = FE_TONEAREST, excepts = {FE_INEXACT}, errno = 0\<rparr>)"
    by (simp add: set_flags_def)
  have "fromfp binary32 True 0x3F800000 FP_INT_TONEAREST 8 ?env
      = (0x3F800000, set_flags {} ?env)"
    unfolding fromfp_def Let_def re
    by (simp only: w8 fin r w lo hi fl if_True if_False)
  then have f8: "fromfp binary32 True 0x3F800000 FP_INT_TONEAREST 8 ?env = (0x3F800000, ?env)"
    by (simp add: set_flags_def)
  have ne: "\<not> fne binary32 0x3F800000 0x3F800000" by (simp add: eval_defs)
  have x32: "fromfpx binary32 True 0x3F800000 FP_INT_TONEAREST 32 ?env =
     (0x3F800000, \<lparr>rounding = FE_TONEAREST, excepts = {FE_INEXACT}, errno = 0\<rparr>)"
    by (simp add: fromfpx_def f32 ne)
  have x8: "fromfpx binary32 True 0x3F800000 FP_INT_TONEAREST 8 ?env = (0x3F800000, ?env)"
    by (simp add: fromfpx_def f8 ne)
  from v f32 x32 x8 show ?thesis by blast
qed

section \<open>The unsigned conversion and negative zero\<close>

text \<open>
  The unsigned \<open>fromfp\<close> does not reject negative zero, at any nonzero width: for a
  finite \<open>x\<close> whose rounded value is \<open>-0.0\<close>, as for every negative \<open>x\<close> in \<open>(-1, 0)\<close>
  under \<open>FP_INT_TOWARDZERO\<close> or \<open>FP_INT_UPWARD\<close>, it returns \<open>-0.0\<close>, because
  \<open>-0.0 < 0.0\<close> is false and no upper bound is below zero. No exception is raised by
  a call; the environment changes only by the inexact flag of the subtraction where
  that computes a bound that is not representable.
\<close>

lemma unsigned_fromfp_negative_zero:
  assumes "wf_format fmt" "valid fmt x" "\<not> is_inf_or_nan fmt x" "width \<noteq> 0"
  shows "round_using_specific_rounding_mode fmt (rounding env) x rnd = lit_zero fmt True \<Longrightarrow>
       fromfp fmt False x rnd width env =
         (lit_zero fmt True,
          set_flags (if FRACTION_LEN fmt + 1 < width \<and> width \<le> EXP_BIAS fmt
                     then {FE_INEXACT} else {}) env)"
    and "is_neg fmt x \<Longrightarrow> \<not> is_zero fmt x \<Longrightarrow> get_exponent fmt x \<le> -1 \<Longrightarrow>
       rnd = FP_INT_TOWARDZERO \<or> rnd = FP_INT_UPWARD \<Longrightarrow>
       round_using_specific_rounding_mode fmt (rounding env) x rnd = lit_zero fmt True"
    and "is_neg fmt (lit_zero fmt True)" "is_zero fmt (lit_zero fmt True)"
      "\<not> is_nan fmt (lit_zero fmt True)"
proof -
  let ?z = "lit_zero fmt True"
  note zf = lit_zero_fields [OF assms(1)]
  show "is_neg fmt ?z" "is_zero fmt ?z" "\<not> is_nan fmt ?z" by (simp_all add: zf)
  show "round_using_specific_rounding_mode fmt (rounding env) x rnd = ?z"
    if "is_neg fmt x" "\<not> is_zero fmt x" "get_exponent fmt x \<le> -1"
      "rnd = FP_INT_TOWARDZERO \<or> rnd = FP_INT_UPWARD"
    using that by (auto simp: rusrm_low [OF assms(3)] mode_defs)
  show "fromfp fmt False x rnd width env =
         (?z, set_flags (if FRACTION_LEN fmt + 1 < width \<and> width \<le> EXP_BIAS fmt
                     then {FE_INEXACT} else {}) env)"
    if r: "round_using_specific_rounding_mode fmt (rounding env) x rnd = ?z"
  proof -
    have v: "fval fmt ?z = 0" by (simp add: fval_def zf)
    have p: "(1::rat) \<le> 2 ^ width" by simp
    have n0: "\<not> fval fmt ?z < 0" unfolding v by simp
    have n1: "\<not> 2 ^ width - 1 < fval fmt ?z" unfolding v using p by linarith
    have n2: "fval fmt ?z \<noteq> 2 ^ width" by (simp add: v)
    show ?thesis
    proof (cases "EXP_BIAS fmt < width")
      case True
      have "fromfp fmt False x rnd width env =
          (if fval fmt ?z < 0 then invalid_nan fmt env else (?z, env))"
        using assms(1-4) True r [symmetric] by (rule fromfp_unsigned_unchecked(1))
      then show ?thesis using True n0 by (simp add: set_flags_def)
    next
      case False
      have h: "\<not> (FRACTION_LEN fmt + 1 < width \<and>
          (rounding env = FE_TONEAREST \<or> rounding env = FE_UPWARD) \<and>
          fval fmt ?z = 2 ^ width)"
        using n2 by simp
      note c = fromfp_unsigned_checked [OF assms(1-4) False r [symmetric] h]
      show ?thesis using False n0 n1 by (simp add: c)
    qed
  qed
qed

text \<open>
  Claim C9, at an input where the code departs from it. In binary32, \<open>-0.5\<close> under
  \<open>FP_INT_UPWARD\<close> rounds to \<open>-0.0\<close>. With an unsigned width of \<open>8\<close> the conversion
  returns \<open>-0.0\<close> and leaves the environment as it was. With an unsigned width of \<open>32\<close>
  it returns \<open>-0.0\<close> as well, but the subtraction \<open>2 ^ 32 - 1.0\<close> that computes
  \<open>range_max\<close> has been executed and leaves the inexact flag set.
\<close>

theorem unsigned_fromfp_negative_zero_sets_inexact:
  "is_neg binary32 0xBF000000 \<and> fval binary32 0xBF000000 = - (1 / 2) \<and>
   round_using_specific_rounding_mode binary32 FE_TONEAREST 0xBF000000 FP_INT_UPWARD
     = lit_zero binary32 True \<and>
   lit_zero binary32 True = 0x80000000 \<and>
   fromfp binary32 False 0xBF000000 FP_INT_UPWARD 8
       \<lparr>rounding = FE_TONEAREST, excepts = {}, errno = 0\<rparr> =
     (0x80000000, \<lparr>rounding = FE_TONEAREST, excepts = {}, errno = 0\<rparr>) \<and>
   fromfp binary32 False 0xBF000000 FP_INT_UPWARD 32
       \<lparr>rounding = FE_TONEAREST, excepts = {}, errno = 0\<rparr> =
     (0x80000000, \<lparr>rounding = FE_TONEAREST, excepts = {FE_INEXACT}, errno = 0\<rparr>)"
proof -
  let ?env = "\<lparr>rounding = FE_TONEAREST, excepts = {}, errno = 0\<rparr>"
  have re: "rounding ?env = FE_TONEAREST" by simp
  have w32: "(32::nat) \<noteq> 0" and w8: "(8::nat) \<noteq> 0" by simp_all
  have z: "lit_zero binary32 True = 0x80000000" by (simp add: eval_defs)
  have r: "round_using_specific_rounding_mode binary32 FE_TONEAREST 0xBF000000 FP_INT_UPWARD
      = 0x80000000"
    by (simp add: round_using_specific_rounding_mode_def eval_defs)
  have fin: "\<not> is_inf_or_nan binary32 0xBF000000" by (simp add: eval_defs)
  have b: "is_neg binary32 0xBF000000" "fval binary32 0xBF000000 = - (1 / 2)"
    by (simp_all add: eval_defs)
  have w: "\<not> (32::nat) > EXP_BIAS binary32" "\<not> (8::nat) > EXP_BIAS binary32"
    by (simp_all add: eval_defs)
  have lo: "\<not> flt binary32 0x80000000 (lit_zero binary32 False)" by (simp add: eval_defs)
  have hi: "\<not> fgt binary32 0x80000000 (fsub binary32 FE_TONEAREST (create_value binary32 False
      ((32 + EXP_BIAS binary32) mod 2 ^ TOTAL_LEN binary32) (EXPLICIT_BIT binary32))
      (lit_one binary32 False))"
    "\<not> fgt binary32 0x80000000 (fsub binary32 FE_TONEAREST (create_value binary32 False
      ((8 + EXP_BIAS binary32) mod 2 ^ TOTAL_LEN binary32) (EXPLICIT_BIT binary32))
      (lit_one binary32 False))"
    by (simp_all add: eval_defs)
  have fl: "fsub_excepts binary32 FE_TONEAREST (create_value binary32 False
      ((32 + EXP_BIAS binary32) mod 2 ^ TOTAL_LEN binary32) (EXPLICIT_BIT binary32))
      (lit_one binary32 False) = {FE_INEXACT}"
    "fsub_excepts binary32 FE_TONEAREST (create_value binary32 False
      ((8 + EXP_BIAS binary32) mod 2 ^ TOTAL_LEN binary32) (EXPLICIT_BIT binary32))
      (lit_one binary32 False) = {}"
    by (simp_all add: eval_defs flag_defs)
  have "fromfp binary32 False 0xBF000000 FP_INT_UPWARD 32 ?env
      = (0x80000000, set_flags {FE_INEXACT} ?env)"
    unfolding fromfp_def Let_def re
    by (simp only: w32 fin r w lo hi fl if_True if_False)
  then have f32: "fromfp binary32 False 0xBF000000 FP_INT_UPWARD 32 ?env =
     (0x80000000, \<lparr>rounding = FE_TONEAREST, excepts = {FE_INEXACT}, errno = 0\<rparr>)"
    by (simp add: set_flags_def)
  have "fromfp binary32 False 0xBF000000 FP_INT_UPWARD 8 ?env
      = (0x80000000, set_flags {} ?env)"
    unfolding fromfp_def Let_def re
    by (simp only: w8 fin r w lo hi fl if_True if_False)
  then have f8: "fromfp binary32 False 0xBF000000 FP_INT_UPWARD 8 ?env = (0x80000000, ?env)"
    by (simp add: set_flags_def)
  have rz: "round_using_specific_rounding_mode binary32 FE_TONEAREST 0xBF000000 FP_INT_UPWARD
     = lit_zero binary32 True"
    by (simp only: r z)
  from b rz z f8 f32 show ?thesis by blast
qed

end
